theory Spec2Isabelle
  imports Main
begin

section \<open>The Puppeteer real-browser client: data model\<close>

text \<open>
  The client of \<^verbatim>\<open>src/index.ts\<close> drives an external browser engine. The engine, the
  user-supplied page actions and the clock are not part of the program: every call into them
  is modelled by an outcome that the caller of the model supplies (a scripted engine), and
  every such call is recorded as an event, in call order.
\<close>

subsection \<open>Actions and their classification\<close>

text \<open>A callable is known by its identity only; what it does when run is an engine outcome.\<close>

type_synonym action_fn = nat

text \<open>
  \<^verbatim>\<open>PuppeteerRealBrowserClientAction\<close>: a bare callable, or a record with a \<^verbatim>\<open>type\<close> and an
  \<^verbatim>\<open>exec\<close> callable. The static type of \<^verbatim>\<open>type\<close> is a union of two string literals; at
  run time it is a string, which is what the comparison in \<^verbatim>\<open>extractActions\<close> reads.
\<close>

datatype PuppeteerRealBrowserClientAction =
    Fn action_fn
  | Tagged string action_fn

record ExtractActionsResult =
  before :: "action_fn list"
  after :: "action_fn list"

text \<open>
  Modelled from the spec: \<^verbatim>\<open>defaultPuppeteerActionType\<close> is imported from \<^verbatim>\<open>./constants\<close>,
  a file that is not among the sources. The specification (a bare callable defaults to the
  "after" bucket) and the README (by default an action is executed after the request) fix
  its value.
\<close>

definition defaultPuppeteerActionType :: string where
  "defaultPuppeteerActionType = ''afterRequest''"

text \<open>The two local constants of the loop body of \<^verbatim>\<open>extractActions\<close>.\<close>

definition actionType :: "PuppeteerRealBrowserClientAction \<Rightarrow> string" where
  "actionType action = (case action of Fn f \<Rightarrow> defaultPuppeteerActionType | Tagged t f \<Rightarrow> t)"

definition actionFunc :: "PuppeteerRealBrowserClientAction \<Rightarrow> action_fn" where
  "actionFunc action = (case action of Fn f \<Rightarrow> f | Tagged t f \<Rightarrow> f)"

text \<open>
  The \<^verbatim>\<open>for ... of\<close> loop, with the two arrays it pushes onto as accumulators
  (\<^verbatim>\<open>push\<close> appends at the end).
\<close>

fun extractActions_loop ::
  "PuppeteerRealBrowserClientAction list \<Rightarrow> action_fn list \<Rightarrow> action_fn list \<Rightarrow> ExtractActionsResult"
where
  "extractActions_loop [] actionsBeforeRequest actionsAfterRequest =
     \<lparr>before = actionsBeforeRequest, after = actionsAfterRequest\<rparr>"
| "extractActions_loop (action # rest) actionsBeforeRequest actionsAfterRequest =
     (if actionType action = ''beforeRequest''
      then extractActions_loop rest (actionsBeforeRequest @ [actionFunc action]) actionsAfterRequest
      else extractActions_loop rest actionsBeforeRequest (actionsAfterRequest @ [actionFunc action]))"

text \<open>\<^verbatim>\<open>extractActions(actions)\<close>: an absent list is replaced by the empty one.\<close>

definition extractActions :: "PuppeteerRealBrowserClientAction list option \<Rightarrow> ExtractActionsResult" where
  "extractActions actions =
     extractActions_loop (case actions of None \<Rightarrow> [] | Some as \<Rightarrow> as) [] []"

text \<open>
  The partition in the words of the specification: a descriptor belongs to the "before"
  bucket when it is explicitly tagged \<^verbatim>\<open>beforeRequest\<close>; a bare callable belongs to "after".
\<close>

fun spec_runs_before :: "PuppeteerRealBrowserClientAction \<Rightarrow> bool" where
  "spec_runs_before (Fn f) = False"
| "spec_runs_before (Tagged t f) = (t = ''beforeRequest'')"

fun spec_callable :: "PuppeteerRealBrowserClientAction \<Rightarrow> action_fn" where
  "spec_callable (Fn f) = f"
| "spec_callable (Tagged t f) = f"

definition spec_before :: "PuppeteerRealBrowserClientAction list \<Rightarrow> action_fn list" where
  "spec_before acts = map spec_callable (filter spec_runs_before acts)"

definition spec_after :: "PuppeteerRealBrowserClientAction list \<Rightarrow> action_fn list" where
  "spec_after acts = map spec_callable (filter (\<lambda>a. \<not> spec_runs_before a) acts)"


subsection \<open>Thrown values, engine outcomes and events\<close>

text \<open>
  What a \<^verbatim>\<open>catch (error: any)\<close> can receive, as far as the handler of \<^verbatim>\<open>fetch\<close> tells values
  apart: an \<^verbatim>\<open>Error\<close> instance (its message, and its \<^verbatim>\<open>status\<close> property when it has a numeric
  one), a value that is no \<^verbatim>\<open>Error\<close> but has properties (with its \<^verbatim>\<open>status\<close> likewise), and
  \<^verbatim>\<open>null\<close>/\<^verbatim>\<open>undefined\<close>, on which reading a property throws.
\<close>

datatype thrown =
    JsError string "int option"
  | NonError "int option"
  | Nullish

type_synonym browser_handle = nat

text \<open>The navigation response of \<^verbatim>\<open>page.goto\<close> as the client reads it.\<close>

record nav_response =
  nav_status :: "int option"
  nav_headers :: "(string \<times> string) list"
  nav_statusText :: string

text \<open>Every call into the engine, a user action or the delay primitive, in call order.\<close>

datatype event =
    Connect "string list" "bool option"
  | BrowserClose browser_handle
  | NewPage browser_handle
  | SetUserAgent string
  | SetJavaScriptEnabled bool
  | RunAction action_fn
  | Goto string
  | Content
  | PageClose
  | Delay int

text \<open>
  The engine's side of one attempt: what each call made during the attempt does (\<open>None\<close>
  and \<open>Inr\<close>: it completes; \<open>Some\<close> and \<open>Inl\<close>: it throws), and the clock reading of
  \<^verbatim>\<open>new Date()\<close>. \<open>close_r\<close> answers the \<^verbatim>\<open>page.close()\<close> of the \<^verbatim>\<open>try\<close> block; the
  one of the \<^verbatim>\<open>catch\<close> block needs no answer, since its \<^verbatim>\<open>.catch(() => { })\<close> discards a failure.
\<close>

record page_script =
  newPage_r :: "thrown option"
  setUserAgent_r :: "thrown option"
  setJavaScriptEnabled_r :: "thrown option"
  action_r :: "action_fn \<Rightarrow> thrown option"
  goto_r :: "thrown + nav_response option"
  content_r :: "thrown + string"
  close_r :: "thrown option"
  now :: nat

text \<open>The engine's side of one \<^verbatim>\<open>fetch\<close>: the answer to \<^verbatim>\<open>connect\<close>, should it be called, and
  the script of the attempt made with each value of \<^verbatim>\<open>currentRetry\<close>.\<close>

record fetch_env =
  connect_r :: "thrown + browser_handle"
  page_r :: "int \<Rightarrow> page_script"

subsection \<open>Client, request and response\<close>

text \<open>
  The fields of the client that \<^verbatim>\<open>index.ts\<close> reads. \<open>browser\<close> is \<^verbatim>\<open>this.browser\<close>. The others
  belong to the base client and the options: \<open>proxy\<close> stands for \<^verbatim>\<open>this.proxy\<close> (tested for
  truthiness) and for \<^verbatim>\<open>this.currentProxy\<close> (its resolved value), \<open>currentUserAgent\<close> and
  \<open>currentProxyUrl\<close> for the resolved \<^verbatim>\<open>currentUserAgent\<close> and \<^verbatim>\<open>currentProxyUrl\<close>; each is
  absent when not configured, and a generator is taken at the value it gives. \<open>isSuccess\<close> is
  the success predicate of the base client; \<open>invalidStatusMessage\<close> is the message
  \<^verbatim>\<open>InvalidStatusCodeError\<close> gives to a status. The base client and the error class are a
  dependency, so they are parameters.
\<close>

record client =
  browser :: "browser_handle option"
  proxy :: "string option"
  currentUserAgent :: "string option"
  currentProxyUrl :: "string option"
  options_args :: "string list option"
  options_headless :: "bool option"
  isSuccess :: "int \<Rightarrow> bool"
  invalidStatusMessage :: "int \<Rightarrow> string"

text \<open>\<^verbatim>\<open>PuppeterRequestOptions\<close>; a field the caller leaves out is \<open>None\<close>.\<close>

record PuppeterRequestOptions =
  url :: string
  javaScriptEnabled :: "bool option"
  maxRetries :: "int option"
  actions :: "PuppeteerRealBrowserClientAction list option"
  retries :: "int option"
  retryDelay :: "int option"

record FaliedAttempt =
  error :: string
  timestamp :: nat

record HttpResponse =
  body :: string
  headers :: "(string \<times> string) list"
  status :: int
  statusText :: string
  attempts :: int
  failedAttempts :: "FaliedAttempt list"

text \<open>JavaScript truthiness of an optional string: present and not empty.\<close>

definition truthy :: "string option \<Rightarrow> bool" where
  "truthy v = (case v of None \<Rightarrow> False | Some s \<Rightarrow> s \<noteq> [])"

text \<open>The defaults of the destructured parameters of \<^verbatim>\<open>fetch\<close>: \<^verbatim>\<open>maxRetries = 0\<close>,
  \<^verbatim>\<open>retries = 0\<close>.\<close>

definition maxRetriesOf :: "PuppeterRequestOptions \<Rightarrow> int" where
  "maxRetriesOf req = (case maxRetries req of None \<Rightarrow> 0 | Some m \<Rightarrow> m)"

definition retriesOf :: "PuppeterRequestOptions \<Rightarrow> int" where
  "retriesOf req = (case retries req of None \<Rightarrow> 0 | Some n \<Rightarrow> n)"

subsection \<open>Awaited calls in sequence\<close>

text \<open>
  A piece of an \<^verbatim>\<open>async\<close> body: the events it causes, and either the value it completes
  with or the value it throws. \<open>andThen\<close> is sequencing: a throw skips what follows.
\<close>

type_synonym 'a step = "event list \<times> (thrown + 'a)"

definition done_with :: "'a \<Rightarrow> 'a step" where
  "done_with x = ([], Inr x)"

definition throw :: "thrown \<Rightarrow> 'a step" where
  "throw t = ([], Inl t)"

definition await_unit :: "event \<Rightarrow> thrown option \<Rightarrow> unit step" where
  "await_unit e r = ([e], case r of None \<Rightarrow> Inr () | Some t \<Rightarrow> Inl t)"

definition await_val :: "event \<Rightarrow> thrown + 'a \<Rightarrow> 'a step" where
  "await_val e r = ([e], r)"

definition andThen :: "'a step \<Rightarrow> ('a \<Rightarrow> 'b step) \<Rightarrow> 'b step" where
  "andThen m k =
     (case m of
        (es, Inl t) \<Rightarrow> (es, Inl t)
      | (es, Inr x) \<Rightarrow> (case k x of (es', r) \<Rightarrow> (es @ es', r)))"

text \<open>Reading a property of \<^verbatim>\<open>null\<close> or \<^verbatim>\<open>undefined\<close>, or calling a method on it, throws a
  \<^verbatim>\<open>TypeError\<close>, an \<^verbatim>\<open>Error\<close> without a \<^verbatim>\<open>status\<close>.\<close>

definition typeError :: thrown where
  "typeError = JsError ''TypeError'' None"

text \<open>\<^verbatim>\<open>new InvalidStatusCodeError(status)\<close>: an \<^verbatim>\<open>Error\<close> that carries the status.\<close>

definition InvalidStatusCodeError :: "client \<Rightarrow> int \<Rightarrow> thrown" where
  "InvalidStatusCodeError c st = JsError (invalidStatusMessage c st) (Some st)"

subsection \<open>Browser lifecycle\<close>

text \<open>\<^verbatim>\<open>initBrowser\<close>, lines 49 to 57: the launch arguments.\<close>

definition puppeteerArguments :: "client \<Rightarrow> string list" where
  "puppeteerArguments c =
     (if truthy (proxy c) then [''--proxy-server='' @ (case proxy c of None \<Rightarrow> [] | Some p \<Rightarrow> p)] else [])
     @ (case options_args c of
          None \<Rightarrow> []
        | Some as \<Rightarrow> if length as > 0 then as else [])"

text \<open>
  \<^verbatim>\<open>initBrowser\<close> suspends once, at \<^verbatim>\<open>await connect(...)\<close>. Up to there it computes the
  arguments and calls \<^verbatim>\<open>connect\<close> (\<open>initBrowser_call\<close>); when \<^verbatim>\<open>connect\<close> has settled it
  stores the browser in the client as it is then, or rejects (\<open>initBrowser_resume\<close>).
\<close>

definition initBrowser_call :: "client \<Rightarrow> event" where
  "initBrowser_call c = Connect (puppeteerArguments c) (options_headless c)"

definition initBrowser_resume :: "client \<Rightarrow> thrown + browser_handle \<Rightarrow> client \<times> thrown option" where
  "initBrowser_resume c r =
     (case r of
        Inl t \<Rightarrow> (c, Some t)
      | Inr connectedBrowser \<Rightarrow> (c\<lparr>browser := Some connectedBrowser\<rparr>, None))"

text \<open>The calls below run without another call of the client interleaved.\<close>

definition initBrowser :: "client \<Rightarrow> thrown + browser_handle \<Rightarrow> client \<times> event list \<times> thrown option" where
  "initBrowser c r = (case initBrowser_resume c r of (c', e) \<Rightarrow> (c', [initBrowser_call c], e))"

definition ensureBrowser :: "client \<Rightarrow> thrown + browser_handle \<Rightarrow> client \<times> event list \<times> thrown option" where
  "ensureBrowser c r = (if browser c = None then initBrowser c r else (c, [], None))"

text \<open>\<^verbatim>\<open>closeBrowser\<close>; \<open>r\<close> is what \<^verbatim>\<open>browser.close()\<close> does if it is called.\<close>

definition closeBrowser :: "client \<Rightarrow> thrown option \<Rightarrow> client \<times> event list \<times> thrown option" where
  "closeBrowser c r =
     (case browser c of
        None \<Rightarrow> (c, [], None)
      | Some b \<Rightarrow>
          (case r of
             Some t \<Rightarrow> (c, [BrowserClose b], Some t)
           | None \<Rightarrow> (c\<lparr>browser := None\<rparr>, [BrowserClose b], None)))"

definition close :: "client \<Rightarrow> thrown option \<Rightarrow> client \<times> event list \<times> thrown option" where
  "close c r = (if browser c \<noteq> None then closeBrowser c r else (c, [], None))"

subsection \<open>Page session and retry engine\<close>

definition configurePage :: "client \<Rightarrow> page_script \<Rightarrow> bool option \<Rightarrow> unit step" where
  "configurePage c s jsEnabled =
     andThen
       (if truthy (currentUserAgent c)
        then await_unit (SetUserAgent (case currentUserAgent c of None \<Rightarrow> [] | Some ua \<Rightarrow> ua))
               (setUserAgent_r s)
        else done_with ())
       (\<lambda>_. case jsEnabled of
               None \<Rightarrow> done_with ()
             | Some b \<Rightarrow> await_unit (SetJavaScriptEnabled b) (setJavaScriptEnabled_r s))"

fun executeActions :: "page_script \<Rightarrow> action_fn list \<Rightarrow> unit step" where
  "executeActions s [] = done_with ()"
| "executeActions s (action # rest) =
     andThen (await_unit (RunAction action) (action_r s action)) (\<lambda>_. executeActions s rest)"

definition fullUrl :: "client \<Rightarrow> PuppeterRequestOptions \<Rightarrow> string" where
  "fullUrl c req =
     (if truthy (currentProxyUrl c)
      then (case currentProxyUrl c of None \<Rightarrow> [] | Some p \<Rightarrow> p) @ url req
      else url req)"

text \<open>Lines 147 to 152: from \<^verbatim>\<open>configurePage\<close> to the \<^verbatim>\<open>page.close()\<close> of the \<^verbatim>\<open>try\<close> block.
  The result is the pair of \<^verbatim>\<open>response\<close> and \<^verbatim>\<open>content\<close>.\<close>

definition pageSession ::
  "client \<Rightarrow> page_script \<Rightarrow> PuppeterRequestOptions \<Rightarrow> (nav_response option \<times> string) step" where
  "pageSession c s req =
     andThen (configurePage c s (javaScriptEnabled req)) (\<lambda>_.
     andThen (executeActions s (before (extractActions (actions req)))) (\<lambda>_.
     andThen (await_val (Goto (fullUrl c req)) (goto_r s)) (\<lambda>response.
     andThen (executeActions s (after (extractActions (actions req)))) (\<lambda>_.
     andThen (await_val Content (content_r s)) (\<lambda>content.
     andThen (await_unit PageClose (close_r s)) (\<lambda>_.
     done_with (response, content)))))))"

text \<open>Lines 154 to 167: the status check and the response of a successful attempt.
  \<^verbatim>\<open>x || d\<close> is \<open>d\<close> for a zero status and for an empty status text.\<close>

definition classify ::
  "client \<Rightarrow> FaliedAttempt list \<Rightarrow> int \<Rightarrow> nav_response option \<times> string \<Rightarrow> HttpResponse step" where
  "classify c failedSoFar currentRetry rc =
     (case rc of (response, content) \<Rightarrow>
        (case (case response of None \<Rightarrow> None | Some r \<Rightarrow> nav_status r) of
           None \<Rightarrow> throw (InvalidStatusCodeError c 500)
         | Some st \<Rightarrow>
             if \<not> isSuccess c st then throw (InvalidStatusCodeError c st)
             else done_with
               \<lparr>body = content,
                headers = (case response of None \<Rightarrow> [] | Some r \<Rightarrow> nav_headers r),
                status = (if st = 0 then 200 else st),
                statusText =
                  (case response of
                     None \<Rightarrow> ''Ok''
                   | Some r \<Rightarrow> if nav_statusText r = [] then ''Ok'' else nav_statusText r),
                attempts = currentRetry + 1,
                failedAttempts = failedSoFar\<rparr>))"

text \<open>
  The \<^verbatim>\<open>try\<close> block of \<^verbatim>\<open>attemptRequest\<close>. The first component tells whether \<^verbatim>\<open>page\<close> was
  assigned, which is what the \<^verbatim>\<open>catch\<close> block tests. \<^verbatim>\<open>this.browser!.newPage()\<close> on a client
  without a browser throws a \<^verbatim>\<open>TypeError\<close>.
\<close>

definition tryBlock ::
  "client \<Rightarrow> page_script \<Rightarrow> PuppeterRequestOptions \<Rightarrow> FaliedAttempt list \<Rightarrow> int
     \<Rightarrow> bool \<times> HttpResponse step" where
  "tryBlock c s req failedSoFar currentRetry =
     (case browser c of
        None \<Rightarrow> (False, throw typeError)
      | Some b \<Rightarrow>
          (case newPage_r s of
             Some t \<Rightarrow> (False, [NewPage b], Inl t)
           | None \<Rightarrow>
               (True,
                andThen ([NewPage b], Inr ()) (\<lambda>_.
                andThen (pageSession c s req) (classify c failedSoFar currentRetry)))))"

text \<open>The \<^verbatim>\<open>catch\<close> block: the message recorded, and \<^verbatim>\<open>error.status || 500\<close>, which throws
  when \<^verbatim>\<open>error\<close> is \<^verbatim>\<open>null\<close> or \<^verbatim>\<open>undefined\<close>.\<close>

definition errorMessage :: "thrown \<Rightarrow> string" where
  "errorMessage err = (case err of JsError m st \<Rightarrow> m | NonError st \<Rightarrow> ''Unknown error'' | Nullish \<Rightarrow> ''Unknown error'')"

definition status_or_500 :: "int option \<Rightarrow> int" where
  "status_or_500 st = (case st of None \<Rightarrow> 500 | Some v \<Rightarrow> if v = 0 then 500 else v)"

definition errorStatus :: "thrown \<Rightarrow> thrown + int" where
  "errorStatus err =
     (case err of
        JsError m st \<Rightarrow> Inr (status_or_500 st)
      | NonError st \<Rightarrow> Inr (status_or_500 st)
      | Nullish \<Rightarrow> Inl typeError)"

definition failedResponse :: "thrown \<Rightarrow> FaliedAttempt list \<Rightarrow> int \<Rightarrow> thrown + HttpResponse" where
  "failedResponse err failedSoFar currentRetry =
     (case errorStatus err of
        Inl t \<Rightarrow> Inl t
      | Inr st \<Rightarrow>
          Inr \<lparr>body = errorMessage err, headers = [], status = st,
               statusText = ''Request Failed'', attempts = currentRetry + 1,
               failedAttempts = failedSoFar\<rparr>)"

definition delayEvents :: "PuppeterRequestOptions \<Rightarrow> event list" where
  "delayEvents req =
     (case retryDelay req of None \<Rightarrow> [] | Some d \<Rightarrow> if d > 0 then [Delay d] else [])"

text \<open>
  \<^verbatim>\<open>attemptRequest(currentRetry)\<close>. The array \<^verbatim>\<open>failedAttempts\<close> of the enclosing \<^verbatim>\<open>fetch\<close>
  is passed along as \<open>failedSoFar\<close>. A failure of the \<^verbatim>\<open>page.close()\<close> of the \<^verbatim>\<open>catch\<close> block is swallowed
  by its \<^verbatim>\<open>.catch(() => { })\<close>.
\<close>

function attemptRequest ::
  "client \<Rightarrow> (int \<Rightarrow> page_script) \<Rightarrow> PuppeterRequestOptions \<Rightarrow> FaliedAttempt list \<Rightarrow> int
     \<Rightarrow> HttpResponse step" where
  "attemptRequest c env req failedSoFar currentRetry =
     (case tryBlock c (env currentRetry) req failedSoFar currentRetry of
        (page, evs, Inr response) \<Rightarrow> (evs, Inr response)
      | (page, evs, Inl err) \<Rightarrow>
          (let failedAttempts' =
                 failedSoFar @
                   [\<lparr>error = errorMessage err, timestamp = now (env currentRetry)\<rparr>];
               evs' = evs @ (if page then [PageClose] else [])
           in if currentRetry < maxRetriesOf req
              then (case attemptRequest c env req failedAttempts' (currentRetry + 1) of
                      (evs'', r) \<Rightarrow> (evs' @ delayEvents req @ evs'', r))
              else (evs', failedResponse err failedAttempts' currentRetry)))"
  by pat_completeness auto
termination
  by (relation "measure (\<lambda>(c, env, req, fa, n). nat (maxRetriesOf req - n))") auto

text \<open>\<^verbatim>\<open>fetch\<close>: a rejection of \<^verbatim>\<open>ensureBrowser\<close> is a rejection of \<^verbatim>\<open>fetch\<close>.\<close>

definition fetch ::
  "client \<Rightarrow> fetch_env \<Rightarrow> PuppeterRequestOptions \<Rightarrow> client \<times> event list \<times> (thrown + HttpResponse)" where
  "fetch c env req =
     (case ensureBrowser c (connect_r env) of
        (c', evs, Some t) \<Rightarrow> (c', evs, Inl t)
      | (c', evs, None) \<Rightarrow>
          (case attemptRequest c' (page_r env) req [] (retriesOf req) of
             (evs', r) \<Rightarrow> (c', evs @ evs', r)))"


subsection \<open>Observers of one attempt\<close>

text \<open>
  What the \<^verbatim>\<open>try\<close> block of one attempt throws, if it throws (the result does not depend
  on the failures recorded so far nor on the retry counter, see \<open>tryBlock_result\<close>), and the
  record the \<^verbatim>\<open>catch\<close> block pushes for it.
\<close>

text \<open>Changing the value a step completes with.\<close>

definition map_step :: "('a \<Rightarrow> 'b) \<Rightarrow> 'a step \<Rightarrow> 'b step" where
  "map_step f m = (fst m, map_sum id f (snd m))"

definition stamp :: "FaliedAttempt list \<Rightarrow> int \<Rightarrow> HttpResponse \<Rightarrow> HttpResponse" where
  "stamp fa n r = r\<lparr>attempts := n + 1, failedAttempts := fa\<rparr>"

definition attemptError :: "client \<Rightarrow> page_script \<Rightarrow> PuppeterRequestOptions \<Rightarrow> thrown option" where
  "attemptError c s req =
     (case snd (snd (tryBlock c s req [] 0)) of Inl e \<Rightarrow> Some e | Inr r \<Rightarrow> None)"

definition failureRecord :: "client \<Rightarrow> page_script \<Rightarrow> PuppeterRequestOptions \<Rightarrow> FaliedAttempt" where
  "failureRecord c s req =
     \<lparr>error = (case attemptError c s req of None \<Rightarrow> [] | Some e \<Rightarrow> errorMessage e), timestamp = now s\<rparr>"

text \<open>
  The engine calls of one attempt, up to the point where \<^verbatim>\<open>attemptRequest\<close> returns or
  calls itself again: those of the \<^verbatim>\<open>try\<close> block and, after a failure with a page at hand,
  the \<^verbatim>\<open>page.close()\<close> of the \<^verbatim>\<open>catch\<close> block (see \<open>attemptRequest_events\<close>).
\<close>

definition attemptTrace :: "client \<Rightarrow> page_script \<Rightarrow> PuppeterRequestOptions \<Rightarrow> event list" where
  "attemptTrace c s req =
     (case tryBlock c s req [] 0 of
        (page, evs, Inr r) \<Rightarrow> evs
      | (page, evs, Inl e) \<Rightarrow> evs @ (if page then [PageClose] else []))"

subsection \<open>Overlapping calls and the browser handle\<close>

text \<open>
  Calls of one client may overlap: an \<^verbatim>\<open>async\<close> method runs until its next \<^verbatim>\<open>await\<close>, and
  other calls run before it resumes (\<^verbatim>\<open>fetchMany\<close> starts several \<^verbatim>\<open>fetch\<close> calls in this
  way). For the browser handle the steps that matter are:
  \<^item> \<open>CallEnsureBrowser\<close>: \<^verbatim>\<open>ensureBrowser()\<close> up to its \<^verbatim>\<open>await connect(...)\<close>: the test
    \<^verbatim>\<open>!this.browser\<close> and, when no handle is stored, the call of \<^verbatim>\<open>connect\<close>, after which the
    call is suspended;
  \<^item> \<open>ConnectSettles r\<close>: a suspended call resumes with the answer \<open>r\<close> of \<^verbatim>\<open>connect\<close> and
    stores the browser (or rejects);
  \<^item> \<open>CallClose r\<close>: \<^verbatim>\<open>close()\<close>, run to its end, where \<open>r\<close> is what \<^verbatim>\<open>browser.close()\<close> does.
  The state holds the client, the number of suspended \<^verbatim>\<open>ensureBrowser\<close> calls, the browsers
  the engine has started and not closed, and the events so far.
\<close>

datatype client_call =
    CallEnsureBrowser
  | ConnectSettles "thrown + browser_handle"
  | CallClose "thrown option"

record sys =
  sys_client :: client
  awaiting :: nat
  live :: "browser_handle list"
  sys_events :: "event list"

definition sys_step :: "sys \<Rightarrow> client_call \<Rightarrow> sys" where
  "sys_step s a =
     (case a of
        CallEnsureBrowser \<Rightarrow>
          if browser (sys_client s) = None
          then s\<lparr>awaiting := awaiting s + 1,
                 sys_events := sys_events s @ [initBrowser_call (sys_client s)]\<rparr>
          else s
      | ConnectSettles r \<Rightarrow>
          if awaiting s = 0 then s
          else s\<lparr>sys_client := fst (initBrowser_resume (sys_client s) r),
                 awaiting := awaiting s - 1,
                 live := (case r of Inl t \<Rightarrow> live s | Inr b \<Rightarrow> b # live s)\<rparr>
      | CallClose r \<Rightarrow>
          (case close (sys_client s) r of
             (c', evs, e) \<Rightarrow>
               s\<lparr>sys_client := c',
                 sys_events := sys_events s @ evs,
                 live := (case browser (sys_client s) of
                            None \<Rightarrow> live s
                          | Some b \<Rightarrow> if r = None then remove1 b (live s) else live s)\<rparr>))"

definition run :: "sys \<Rightarrow> client_call list \<Rightarrow> sys" where
  "run s sch = foldl sys_step s sch"

text \<open>A schedule in which no \<^verbatim>\<open>ensureBrowser\<close> call starts while another one is suspended.\<close>

fun non_overlapping :: "sys \<Rightarrow> client_call list \<Rightarrow> bool" where
  "non_overlapping s [] = True"
| "non_overlapping s (a # rest) =
     ((case a of CallEnsureBrowser \<Rightarrow> awaiting s = 0 | ConnectSettles r \<Rightarrow> True | CallClose r \<Rightarrow> True)
      \<and> non_overlapping (sys_step s a) rest)"

text \<open>A client at rest, with the engine running exactly the browser it stores.\<close>

definition sys_of :: "client \<Rightarrow> sys" where
  "sys_of c =
     \<lparr>sys_client = c, awaiting = 0,
      live = (case browser c of None \<Rightarrow> [] | Some b \<Rightarrow> [b]), sys_events = []\<rparr>"

text \<open>The engine runs the stored browser and no other one, and a suspended
  \<^verbatim>\<open>ensureBrowser\<close> call is the only one and found no handle.\<close>

definition one_browser :: "sys \<Rightarrow> bool" where
  "one_browser s =
     (live s = (case browser (sys_client s) of None \<Rightarrow> [] | Some b \<Rightarrow> [b])
      \<and> (if browser (sys_client s) = None then awaiting s \<le> 1 else awaiting s = 0))"

subsection \<open>Many fetches at once\<close>

text \<open>
  \<^verbatim>\<open>fetchMany\<close> starts one \<^verbatim>\<open>executeRequest\<close> per request without awaiting it, so the fetches
  run interleaved and settle in any order. A promise is known by its position in the order
  of the calls of \<^verbatim>\<open>executeRequest\<close>.
\<close>

datatype promise_state = Pending | Fulfilled | RejectedWith thrown

datatype many_phase =
    Looping
  | Throttled
  | AwaitingAll
  | Resolved "HttpResponse option list"
  | Rejected thrown

text \<open>
  What \<^verbatim>\<open>fetchMany\<close> uses of the base class, which is a dependency and not among the sources:
  \<open>respond request j\<close> is what the \<^verbatim>\<open>this.fetch(request)\<close> made by the \<open>j\<close>-th
  \<^verbatim>\<open>executeRequest\<close> settles with; \<open>shouldThrottle\<close> is the base class's test on the array
  \<^verbatim>\<open>executing\<close> and the \<^verbatim>\<open>concurrency\<close> option; \<open>handleConcurrency\<close> gives the array
  \<^verbatim>\<open>executing\<close> as the base class's \<^verbatim>\<open>handleConcurrency\<close> leaves it, from the array and the
  states of the promises. All three are parameters.
\<close>

record base_client =
  respond :: "PuppeterRequestOptions \<Rightarrow> nat \<Rightarrow> thrown + HttpResponse"
  shouldThrottle :: "nat list \<Rightarrow> nat option \<Rightarrow> bool"
  handleConcurrency :: "nat list \<Rightarrow> (nat \<Rightarrow> promise_state) \<Rightarrow> nat list"

text \<open>
  The state of one \<^verbatim>\<open>fetchMany\<close> call: the loop variable \<^verbatim>\<open>i\<close>, the array \<^verbatim>\<open>executing\<close>, the
  calls of \<^verbatim>\<open>executeRequest\<close> made so far (request and index), the state of every promise,
  the array \<^verbatim>\<open>results\<close> (a hole of the JavaScript array is \<open>None\<close>), and where the call stands.
\<close>

record many_state =
  loop_i :: nat
  executing :: "nat list"
  tasks :: "(PuppeterRequestOptions \<times> nat) list"
  promises :: "nat \<Rightarrow> promise_state"
  results :: "HttpResponse option list"
  many_phase :: many_phase

text \<open>\<^verbatim>\<open>xs[i] = v\<close> on a JavaScript array: an index past the end extends the array with holes.\<close>

definition js_assign :: "'a option list \<Rightarrow> nat \<Rightarrow> 'a \<Rightarrow> 'a option list" where
  "js_assign xs i v =
     (if i < length xs then xs[i := Some v]
      else xs @ replicate (i - length xs) None @ [Some v])"

text \<open>
  Modelled from the spec: \<^verbatim>\<open>executeRequest\<close> is a method of the base class and is missing from the
  sources. Section 4.5 of the specification (results are collected into an output sequence at
  the same index as their originating request) says what it does: it awaits
  \<^verbatim>\<open>this.fetch(request)\<close> and stores the response at \<^verbatim>\<open>results[index]\<close>; a rejected \<^verbatim>\<open>fetch\<close>
  rejects it. The step below is the moment the \<open>j\<close>-th call settles.
\<close>

definition executeRequest_settles :: "base_client \<Rightarrow> many_state \<Rightarrow> nat \<Rightarrow> many_state" where
  "executeRequest_settles e s j =
     (if j < length (tasks s) \<and> promises s j = Pending
      then (case tasks s ! j of
              (request, index) \<Rightarrow>
                (case respond e request j of
                   Inr response \<Rightarrow>
                     s\<lparr>results := js_assign (results s) index response,
                       promises := (promises s)(j := Fulfilled)\<rparr>
                 | Inl t \<Rightarrow> s\<lparr>promises := (promises s)(j := RejectedWith t)\<rparr>))
      else s)"

definition is_settled :: "promise_state \<Rightarrow> bool" where
  "is_settled p = (case p of Pending \<Rightarrow> False | Fulfilled \<Rightarrow> True | RejectedWith t \<Rightarrow> True)"

definition is_rejected :: "promise_state \<Rightarrow> bool" where
  "is_rejected p = (case p of Pending \<Rightarrow> False | Fulfilled \<Rightarrow> False | RejectedWith t \<Rightarrow> True)"

definition rejection :: "promise_state \<Rightarrow> thrown" where
  "rejection p = (case p of Pending \<Rightarrow> Nullish | Fulfilled \<Rightarrow> Nullish | RejectedWith t \<Rightarrow> t)"

text \<open>
  \<^verbatim>\<open>fetchMany\<close> itself, from one \<^verbatim>\<open>await\<close> to the next. In the loop it calls \<^verbatim>\<open>executeRequest\<close>
  with \<^verbatim>\<open>requests[i]\<close> and \<^verbatim>\<open>i\<close>, pushes the promise, and awaits \<^verbatim>\<open>handleConcurrency\<close> when
  \<^verbatim>\<open>shouldThrottle\<close> says so; after the loop it awaits \<^verbatim>\<open>Promise.all(executing)\<close>, which
  rejects when a promise of the array is rejected and is fulfilled when all of them are, and
  returns \<^verbatim>\<open>results\<close>. Modelled from the spec: the awaited \<^verbatim>\<open>handleConcurrency\<close> (missing, as
  above) lets the loop go on once a promise of the array has settled, and rejects when that
  promise is rejected.
\<close>

definition fetchMany_advance ::
  "base_client \<Rightarrow> PuppeterRequestOptions list \<Rightarrow> nat option \<Rightarrow> many_state \<Rightarrow> many_state" where
  "fetchMany_advance e requests concurrency s =
     (case many_phase s of
        Looping \<Rightarrow>
          if loop_i s < length requests
          then (let s' = s\<lparr>tasks := tasks s @ [(requests ! loop_i s, loop_i s)],
                          executing := executing s @ [length (tasks s)]\<rparr>
                in if shouldThrottle e (executing s') concurrency
                   then s'\<lparr>many_phase := Throttled\<rparr>
                   else s'\<lparr>loop_i := loop_i s + 1\<rparr>)
          else s\<lparr>many_phase := AwaitingAll\<rparr>
      | Throttled \<Rightarrow>
          (case find (\<lambda>j. is_settled (promises s j)) (executing s) of
             None \<Rightarrow> s
           | Some j \<Rightarrow>
               if is_rejected (promises s j)
               then s\<lparr>many_phase := Rejected (rejection (promises s j))\<rparr>
               else s\<lparr>executing := handleConcurrency e (executing s) (promises s),
                      loop_i := loop_i s + 1, many_phase := Looping\<rparr>)
      | AwaitingAll \<Rightarrow>
          (case find (\<lambda>j. is_rejected (promises s j)) (executing s) of
             Some j \<Rightarrow> s\<lparr>many_phase := Rejected (rejection (promises s j))\<rparr>
           | None \<Rightarrow>
               if list_all (\<lambda>j. promises s j = Fulfilled) (executing s)
               then s\<lparr>many_phase := Resolved (results s)\<rparr>
               else s)
      | Resolved rs \<Rightarrow> s
      | Rejected t \<Rightarrow> s)"

text \<open>
  A schedule says in which order \<^verbatim>\<open>fetchMany\<close> advances and the started calls settle. A call
  may settle at any point of a schedule; the JavaScript scheduler lets it settle only while
  \<^verbatim>\<open>fetchMany\<close> is suspended, so the schedules here include every real one.
\<close>

datatype many_call = Advance | Settle nat

definition many_step ::
  "base_client \<Rightarrow> PuppeterRequestOptions list \<Rightarrow> nat option \<Rightarrow> many_state \<Rightarrow> many_call \<Rightarrow> many_state" where
  "many_step e requests concurrency s a =
     (case a of
        Advance \<Rightarrow> fetchMany_advance e requests concurrency s
      | Settle j \<Rightarrow> executeRequest_settles e s j)"

definition many_init :: many_state where
  "many_init =
     \<lparr>loop_i = 0, executing = [], tasks = [], promises = (\<lambda>j. Pending), results = [],
      many_phase = Looping\<rparr>"

definition fetchMany ::
  "base_client \<Rightarrow> PuppeterRequestOptions list \<Rightarrow> nat option \<Rightarrow> many_call list \<Rightarrow> many_state" where
  "fetchMany e requests concurrency sched = foldl (many_step e requests concurrency) many_init sched"

text \<open>
  Modelled from the spec: \<^verbatim>\<open>handleConcurrency\<close> is missing from the sources; by section 4.5
  (none are abandoned) it removes no promise from \<^verbatim>\<open>executing\<close> that has not settled.
\<close>

definition keeps_unsettled :: "base_client \<Rightarrow> bool" where
  "keeps_unsettled e =
     (\<forall>ex ps j. j \<in> set ex \<and> ps j = Pending \<longrightarrow> j \<in> set (handleConcurrency e ex ps))"

text \<open>The invariant of \<^verbatim>\<open>fetchMany\<close>, in three parts: the calls made, the pending promises,
  and the array \<^verbatim>\<open>results\<close>.\<close>

definition inv_tasks :: "PuppeterRequestOptions list \<Rightarrow> many_state \<Rightarrow> bool" where
  "inv_tasks requests s =
     ((\<forall>j. j < length (tasks s) \<longrightarrow> tasks s ! j = (requests ! j, j))
      \<and> length (tasks s) \<le> length requests
      \<and> (case many_phase s of
            Looping \<Rightarrow> loop_i s = length (tasks s)
          | Throttled \<Rightarrow> Suc (loop_i s) = length (tasks s)
          | AwaitingAll \<Rightarrow> length (tasks s) = length requests
          | Resolved rs \<Rightarrow> length (tasks s) = length requests
          | Rejected t \<Rightarrow> True))"

definition inv_pending :: "many_state \<Rightarrow> bool" where
  "inv_pending s =
     ((\<forall>j. length (tasks s) \<le> j \<longrightarrow> promises s j = Pending)
      \<and> (case many_phase s of
            Resolved rs \<Rightarrow> rs = results s \<and> (\<forall>j. j < length (tasks s) \<longrightarrow> promises s j \<noteq> Pending)
          | Rejected t \<Rightarrow> True
          | _ \<Rightarrow> (\<forall>j. promises s j = Pending \<and> j < length (tasks s) \<longrightarrow> j \<in> set (executing s))))"

definition inv_results :: "base_client \<Rightarrow> PuppeterRequestOptions list \<Rightarrow> many_state \<Rightarrow> bool" where
  "inv_results e requests s =
     (length (results s) \<le> length (tasks s)
      \<and> (\<forall>i r. i < length (results s) \<and> results s ! i = Some r \<longrightarrow>
             promises s i = Fulfilled \<and> respond e (requests ! i) i = Inr r)
      \<and> (\<forall>j. promises s j = Fulfilled \<longrightarrow> j < length (results s) \<and> results s ! j \<noteq> None)
      \<and> (\<forall>j t. promises s j = RejectedWith t \<longrightarrow> respond e (requests ! j) j = Inl t))"

definition many_inv :: "base_client \<Rightarrow> PuppeterRequestOptions list \<Rightarrow> many_state \<Rightarrow> bool" where
  "many_inv e requests s = (inv_tasks requests s \<and> inv_pending s \<and> inv_results e requests s)"

text \<open>
  Modelled from the spec: \<^verbatim>\<open>handleConcurrency\<close> is missing from the sources; by section 6 (a
  concurrency-throttling primitive operating over a set of in-flight promises) it works on the
  promises of the array \<^verbatim>\<open>executing\<close>, so it leaves in the array only promises that were in it.
\<close>

definition returns_members :: "base_client \<Rightarrow> bool" where
  "returns_members e = (\<forall>ex ps. set (handleConcurrency e ex ps) \<subseteq> set ex)"

text \<open>No \<^verbatim>\<open>fetch\<close> started by \<^verbatim>\<open>fetchMany\<close> rejects: the one of \<^verbatim>\<open>requests[i]\<close> settles with a
  response, for every \<open>i\<close>.\<close>

definition no_fetch_rejects :: "base_client \<Rightarrow> PuppeterRequestOptions list \<Rightarrow> bool" where
  "no_fetch_rejects e requests =
     (\<forall>i. i < length requests \<longrightarrow> (\<exists>r. respond e (requests ! i) i = Inr r))"

text \<open>
  A way for a run of \<^verbatim>\<open>fetchMany\<close> to go on from any point: in one round every call of
  \<^verbatim>\<open>executeRequest\<close> that is still pending settles, then \<^verbatim>\<open>fetchMany\<close> runs to its next
  \<^verbatim>\<open>await\<close>. \<open>drain n\<close> is \<open>2 * n + 3\<close> such rounds, which is enough for \<open>n\<close> requests: a
  request takes at most two rounds (the call, and the wait of the throttle), the
  \<^verbatim>\<open>Promise.all\<close> takes one, and the loop exit takes one.
\<close>

definition settle_round :: "nat \<Rightarrow> many_call list" where
  "settle_round n = map Settle [0..<n] @ [Advance]"

definition drain :: "nat \<Rightarrow> many_call list" where
  "drain n = concat (replicate (2 * n + 3) (settle_round n))"

text \<open>
  What holds in addition when no \<^verbatim>\<open>fetch\<close> rejects: the array \<^verbatim>\<open>executing\<close> holds promises of
  calls that were made, it is not empty while the throttle waits, no promise is rejected and
  \<^verbatim>\<open>fetchMany\<close> has not rejected.
\<close>

definition inv_exec :: "many_state \<Rightarrow> bool" where
  "inv_exec s =
     ((\<forall>j. j \<in> set (executing s) \<longrightarrow> j < length (tasks s))
      \<and> (many_phase s = Throttled \<longrightarrow> executing s \<noteq> [])
      \<and> (\<forall>j. \<not> is_rejected (promises s j))
      \<and> (\<forall>t. many_phase s \<noteq> Rejected t))"

text \<open>A bound on the rounds \<^verbatim>\<open>fetchMany\<close> still needs to resolve, with \<open>n\<close> requests.\<close>

definition many_rank :: "nat \<Rightarrow> many_state \<Rightarrow> nat" where
  "many_rank n s =
     (case many_phase s of
        Looping \<Rightarrow> 2 * (n - loop_i s) + 3
      | Throttled \<Rightarrow> 2 * (n - loop_i s) + 2
      | AwaitingAll \<Rightarrow> 1
      | Resolved rs \<Rightarrow> 0
      | Rejected t \<Rightarrow> 0)"

subsection \<open>Concrete clients, requests and scripted engines\<close>

text \<open>The inputs at which the theorems below are instantiated and the model is evaluated.
  The example client accepts the statuses 200 to 299.\<close>

definition ex_client :: client where
  "ex_client =
     \<lparr>browser = None, proxy = None, currentUserAgent = None, currentProxyUrl = None,
      options_args = None, options_headless = None,
      isSuccess = (\<lambda>st. 200 \<le> st \<and> st < 300),
      invalidStatusMessage = (\<lambda>st. ''Invalid status code'')\<rparr>"

definition ex_started :: client where
  "ex_started = ex_client\<lparr>browser := Some 7\<rparr>"

definition ok_script :: page_script where
  "ok_script =
     \<lparr>newPage_r = None, setUserAgent_r = None, setJavaScriptEnabled_r = None,
      action_r = (\<lambda>a. None),
      goto_r = Inr (Some \<lparr>nav_status = Some 200, nav_headers = [], nav_statusText = ''OK''\<rparr>),
      content_r = Inr ''<html></html>'', close_r = None, now = 0\<rparr>"

definition nav_error_script :: page_script where
  "nav_error_script = ok_script\<lparr>goto_r := Inl (JsError ''net::ERR_CONNECTION_REFUSED'' None)\<rparr>"

definition ex_request :: PuppeterRequestOptions where
  "ex_request =
     \<lparr>url = ''https://example.com'', javaScriptEnabled = None, maxRetries = None,
      actions = None, retries = None, retryDelay = None\<rparr>"

definition env_always_fails :: fetch_env where
  "env_always_fails = \<lparr>connect_r = Inr 7, page_r = (\<lambda>k. nav_error_script\<lparr>now := nat k\<rparr>)\<rparr>"

definition env_third_succeeds :: fetch_env where
  "env_third_succeeds =
     \<lparr>connect_r = Inr 7,
      page_r = (\<lambda>k. if k < 2 then nav_error_script\<lparr>now := nat k\<rparr> else ok_script\<lparr>now := nat k\<rparr>)\<rparr>"

definition env_status_zero :: fetch_env where
  "env_status_zero =
     \<lparr>connect_r = Inr 7,
      page_r = (\<lambda>k. ok_script
        \<lparr>goto_r := Inr (Some \<lparr>nav_status = Some 0, nav_headers = [], nav_statusText = []\<rparr>)\<rparr>)\<rparr>"

definition env_throws_null :: fetch_env where
  "env_throws_null = \<lparr>connect_r = Inr 7, page_r = (\<lambda>k. ok_script\<lparr>goto_r := Inl Nullish\<rparr>)\<rparr>"

definition env_connect_fails :: fetch_env where
  "env_connect_fails =
     \<lparr>connect_r = Inl (JsError ''Failed to launch the browser process'' None),
      page_r = (\<lambda>k. ok_script)\<rparr>"

definition env_no_response :: fetch_env where
  "env_no_response = \<lparr>connect_r = Inr 7, page_r = (\<lambda>k. ok_script\<lparr>goto_r := Inr None\<rparr>)\<rparr>"

definition env_close_fails_once :: fetch_env where
  "env_close_fails_once =
     \<lparr>connect_r = Inr 7,
      page_r = (\<lambda>k. if k = 0
                     then ok_script\<lparr>close_r := Some (JsError ''Protocol error: Target closed'' None)\<rparr>
                     else ok_script\<lparr>now := 1\<rparr>)\<rparr>"

definition env_null_then_error :: fetch_env where
  "env_null_then_error =
     \<lparr>connect_r = Inr 7,
      page_r = (\<lambda>k. if k = 0 then ok_script\<lparr>goto_r := Inl Nullish\<rparr>
                     else nav_error_script\<lparr>now := 1\<rparr>)\<rparr>"

definition env_after_action_throws :: fetch_env where
  "env_after_action_throws =
     \<lparr>connect_r = Inr 7,
      page_r = (\<lambda>k. ok_script
        \<lparr>goto_r := Inr None,
         action_r := (\<lambda>a. Some (JsError ''I am a teapot'' (Some 418)))\<rparr>)\<rparr>"

definition env_after_action_throws_null :: fetch_env where
  "env_after_action_throws_null =
     \<lparr>connect_r = Inr 7,
      page_r = (\<lambda>k. ok_script\<lparr>goto_r := Inr None, action_r := (\<lambda>a. Some Nullish)\<rparr>)\<rparr>"

definition ex_base :: base_client where
  "ex_base =
     \<lparr>respond = (\<lambda>request j.
         Inr \<lparr>body = url request, headers = [], status = 200, statusText = ''OK'',
              attempts = 1, failedAttempts = []\<rparr>),
      shouldThrottle = (\<lambda>ex concurrency.
         case concurrency of None \<Rightarrow> False | Some n \<Rightarrow> n \<le> length ex),
      handleConcurrency = (\<lambda>ex ps. filter (\<lambda>j. ps j = Pending) ex)\<rparr>"

definition ex_requests :: "PuppeterRequestOptions list" where
  "ex_requests =
     map (\<lambda>u. \<lparr>url = u, javaScriptEnabled = None, maxRetries = None, actions = None,
                retries = None, retryDelay = None\<rparr>)
       [''https://a.example'', ''https://b.example'', ''https://c.example'']"

definition ex_schedule :: "many_call list" where
  "ex_schedule =
     [Advance, Advance, Settle 1, Advance, Advance, Settle 2, Advance, Advance, Settle 0, Advance]"

definition ex_base_rejecting :: base_client where
  "ex_base_rejecting =
     ex_base\<lparr>respond := (\<lambda>request j.
        if j = 0 then Inl (JsError ''Failed to launch the browser process'' None)
        else respond ex_base request j)\<rparr>"

definition ex_schedule_reject :: "many_call list" where
  "ex_schedule_reject = [Advance, Advance, Advance, Advance, Settle 0, Advance]"

section \<open>The action classifier\<close>

lemma actionType_before_iff: "(actionType a = ''beforeRequest'') = spec_runs_before a"
  by (cases a) (simp_all add: actionType_def defaultPuppeteerActionType_def)

lemma actionFunc_callable: "actionFunc a = spec_callable a"
  by (cases a) (simp_all add: actionFunc_def)

lemma extractActions_loop_eq:
  "extractActions_loop acts bs as =
     \<lparr>before = bs @ spec_before acts, after = as @ spec_after acts\<rparr>"
  by (induction acts arbitrary: bs as)
     (simp_all add: spec_before_def spec_after_def actionType_before_iff actionFunc_callable)

lemma extractActions_Some:
  "extractActions (Some acts) = \<lparr>before = spec_before acts, after = spec_after acts\<rparr>"
  by (simp add: extractActions_def extractActions_loop_eq)

lemma extractActions_None: "extractActions None = \<lparr>before = [], after = []\<rparr>"
  by (simp add: extractActions_def)

lemma spec_buckets_length: "length (spec_before acts) + length (spec_after acts) = length acts"
  by (induction acts) (simp_all add: spec_before_def spec_after_def)

text \<open>
  C6. \<^verbatim>\<open>extractActions\<close> is an order-preserving partition of its input. For a present list
  the "before" bucket is the callables of the descriptors tagged \<^verbatim>\<open>beforeRequest\<close>, in their
  original order, and the "after" bucket is the callables of all other descriptors, in their
  original order; a bare callable is an "after" descriptor, a descriptor tagged
  \<^verbatim>\<open>beforeRequest\<close> a "before" one, a descriptor tagged \<^verbatim>\<open>afterRequest\<close> an "after" one. An
  absent list gives two empty buckets. The function reads nothing but its argument. For the
  list of a bare callable, a before-descriptor and an after-descriptor, "before" holds the
  before-descriptor only and "after" the bare callable followed by the after-descriptor.
\<close>

theorem extractActions_partition:
  "extractActions (Some acts) =
     \<lparr>before = map spec_callable (filter spec_runs_before acts),
      after = map spec_callable (filter (\<lambda>a. \<not> spec_runs_before a) acts)\<rparr>
   \<and> extractActions None = \<lparr>before = [], after = []\<rparr>
   \<and> extractActions (Some [Fn f]) = \<lparr>before = [], after = [f]\<rparr>
   \<and> extractActions (Some [Tagged ''beforeRequest'' g]) = \<lparr>before = [g], after = []\<rparr>
   \<and> extractActions (Some [Tagged ''afterRequest'' h]) = \<lparr>before = [], after = [h]\<rparr>
   \<and> extractActions (Some [Fn f, Tagged ''beforeRequest'' g, Tagged ''afterRequest'' h]) =
       \<lparr>before = [g], after = [f, h]\<rparr>"
  by (simp add: extractActions_Some extractActions_None spec_before_def spec_after_def)

text \<open>
  C10. \<^verbatim>\<open>extractActions\<close> drops no action: the two buckets together are as long as the
  input (and both are empty for an absent input). A tagged descriptor whose type is any
  string other than \<^verbatim>\<open>beforeRequest\<close> is put in the "after" bucket, at its place among the
  "after" actions, and adds nothing to the "before" bucket.
\<close>

theorem extractActions_drops_nothing:
  "length (before (extractActions (Some acts))) + length (after (extractActions (Some acts)))
     = length acts
   \<and> length (before (extractActions None)) + length (after (extractActions None)) = 0
   \<and> (t \<noteq> ''beforeRequest'' \<longrightarrow>
        after (extractActions (Some (xs @ Tagged t f # ys))) =
          after (extractActions (Some xs)) @ f # after (extractActions (Some ys))
        \<and> before (extractActions (Some (xs @ Tagged t f # ys))) =
          before (extractActions (Some xs)) @ before (extractActions (Some ys)))"
  using spec_buckets_length [of acts]
  by (simp add: extractActions_Some extractActions_None spec_before_def spec_after_def)

theorem extractActions_drops_nothing_witness:
  "''beforRequest'' \<noteq> ''beforeRequest''
   \<and> extractActions (Some ([Fn 1, Tagged ''beforeRequest'' 2] @ Tagged ''beforRequest'' 3 # [Tagged ''afterRequest'' 4]))
       = \<lparr>before = [2], after = [1, 3, 4]\<rparr>
   \<and> after (extractActions (Some ([Fn 1, Tagged ''beforeRequest'' 2] @ Tagged ''beforRequest'' 3 # [Tagged ''afterRequest'' 4]))) =
       after (extractActions (Some [Fn 1, Tagged ''beforeRequest'' 2])) @ 3 # after (extractActions (Some [Tagged ''afterRequest'' 4]))"
  using extractActions_drops_nothing
    [where xs = "[Fn 1, Tagged ''beforeRequest'' 2]" and t = "''beforRequest''" and f = 3
       and ys = "[Tagged ''afterRequest'' 4]"]
  by (simp add: extractActions_Some spec_before_def spec_after_def)


section \<open>The retry engine\<close>

lemma classify_stamp:
  "classify c fa n rc = map_step (stamp fa n) (classify c [] 0 rc)"
  by (cases rc) (simp add: classify_def map_step_def stamp_def throw_def done_with_def
       split: option.splits)

lemma andThen_map_step:
  "andThen m (\<lambda>x. map_step f (k x)) = map_step f (andThen m k)"
  by (cases m) (auto simp: andThen_def map_step_def split: sum.splits prod.splits)

lemma map_step_Inl: "map_step f (es, Inl t) = (es, Inl t)"
  by (simp add: map_step_def)

lemma tryBlock_stamp:
  "tryBlock c s req fa n =
     (fst (tryBlock c s req [] 0), map_step (stamp fa n) (snd (tryBlock c s req [] 0)))"
proof -
  have "classify c fa n = (\<lambda>rc. map_step (stamp fa n) (classify c [] 0 rc))"
    by (rule ext) (rule classify_stamp)
  then show ?thesis
    by (simp add: tryBlock_def andThen_map_step map_step_Inl throw_def
          split: option.splits)
qed

lemma tryBlock_result:
  "snd (snd (tryBlock c s req fa n)) =
     (case attemptError c s req of
        Some e \<Rightarrow> Inl e
      | None \<Rightarrow> Inr (stamp fa n (projr (snd (snd (tryBlock c s req [] 0))))))"
  by (subst tryBlock_stamp) (simp add: attemptError_def map_step_def split: sum.splits)

declare attemptRequest.simps [simp del]

lemma attemptRequest_success:
  assumes "attemptError c (env n) req = None"
  shows "snd (attemptRequest c env req fa n) = snd (snd (tryBlock c (env n) req fa n))"
proof -
  obtain p evs r where t: "tryBlock c (env n) req fa n = (p, evs, r)"
    by (cases "tryBlock c (env n) req fa n") auto
  from tryBlock_result [of c "env n" req fa n] assms t obtain x where "r = Inr x"
    by simp
  with t show ?thesis
    by (subst attemptRequest.simps) simp
qed

lemma attemptRequest_retry:
  assumes "attemptError c (env n) req = Some e" and "n < maxRetriesOf req"
  shows "snd (attemptRequest c env req fa n) =
         snd (attemptRequest c env req (fa @ [failureRecord c (env n) req]) (n + 1))"
proof -
  obtain p evs r where t: "tryBlock c (env n) req fa n = (p, evs, r)"
    by (cases "tryBlock c (env n) req fa n") auto
  from tryBlock_result [of c "env n" req fa n] assms t have "r = Inl e"
    by simp
  with t assms show ?thesis
    by (subst attemptRequest.simps) (simp add: failureRecord_def Let_def split: prod.splits)
qed

lemma attemptRequest_final:
  assumes "attemptError c (env n) req = Some e" and "\<not> n < maxRetriesOf req"
  shows "snd (attemptRequest c env req fa n) =
         failedResponse e (fa @ [failureRecord c (env n) req]) n"
proof -
  obtain p evs r where t: "tryBlock c (env n) req fa n = (p, evs, r)"
    by (cases "tryBlock c (env n) req fa n") auto
  from tryBlock_result [of c "env n" req fa n] assms t have "r = Inl e"
    by simp
  with t assms show ?thesis
    by (subst attemptRequest.simps) (simp add: failureRecord_def Let_def)
qed

lemma attemptRequest_all_fail:
  assumes "\<forall>k. n \<le> k \<and> k \<le> m \<longrightarrow> attemptError c (env k) req \<noteq> None"
    and "n \<le> m" and "maxRetriesOf req = m"
  shows "snd (attemptRequest c env req fa n) =
         failedResponse (the (attemptError c (env m) req))
           (fa @ map (\<lambda>k. failureRecord c (env k) req) [n..m]) m"
  using assms
proof (induction "nat (m - n)" arbitrary: n fa)
  case 0
  then have nm: "n = m" by simp
  from 0 obtain e where e: "attemptError c (env m) req = Some e" by (auto simp: nm)
  show ?case
    using attemptRequest_final [of c env m req e fa] e 0(4)
    by (simp add: nm)
next
  case (Suc d)
  then have lt: "n < m" by linarith
  from Suc.prems obtain e where e: "attemptError c (env n) req = Some e" by auto
  have step: "snd (attemptRequest c env req fa n) =
        snd (attemptRequest c env req (fa @ [failureRecord c (env n) req]) (n + 1))"
    using attemptRequest_retry [of c env n req e fa] e lt Suc.prems(3) by simp
  have ih: "snd (attemptRequest c env req (fa @ [failureRecord c (env n) req]) (n + 1)) =
        failedResponse (the (attemptError c (env m) req))
          ((fa @ [failureRecord c (env n) req]) @ map (\<lambda>k. failureRecord c (env k) req) [n + 1..m]) m"
    using Suc.hyps(2) Suc.prems lt by (intro Suc.hyps(1)) auto
  have "[n..m] = n # [n + 1..m]"
    using lt by (simp add: upto_rec1)
  with step ih show ?case by simp
qed

lemma attemptRequest_succeeds_at:
  assumes "\<forall>k. n \<le> k \<and> k < j \<longrightarrow> attemptError c (env k) req \<noteq> None"
    and "attemptError c (env j) req = None"
    and "n \<le> j" and "j \<le> maxRetriesOf req \<or> j = n"
  shows "snd (attemptRequest c env req fa n) =
         snd (snd (tryBlock c (env j) req
                (fa @ map (\<lambda>k. failureRecord c (env k) req) [n..j - 1]) j))"
  using assms
proof (induction "nat (j - n)" arbitrary: n fa)
  case 0
  then have nj: "n = j" by simp
  show ?case
    using attemptRequest_success [of c env j req fa] 0(3)
    by (simp add: nj)
next
  case (Suc d)
  then have lt: "n < j" by linarith
  from Suc.prems lt obtain e where e: "attemptError c (env n) req = Some e" by auto
  have "n < maxRetriesOf req" using lt Suc.prems(4) by auto
  then have step: "snd (attemptRequest c env req fa n) =
        snd (attemptRequest c env req (fa @ [failureRecord c (env n) req]) (n + 1))"
    using attemptRequest_retry [of c env n req e fa] e by simp
  have ih: "snd (attemptRequest c env req (fa @ [failureRecord c (env n) req]) (n + 1)) =
        snd (snd (tryBlock c (env j) req
          ((fa @ [failureRecord c (env n) req]) @ map (\<lambda>k. failureRecord c (env k) req) [n + 1..j - 1]) j))"
    using Suc.hyps(2) Suc.prems lt by (intro Suc.hyps(1)) auto
  have "[n..j - 1] = n # [n + 1..j - 1]"
    using lt by (simp add: upto_rec1)
  with step ih show ?case by simp
qed

lemma andThen_Inr:
  assumes "andThen m k = (es, Inr y)"
  shows "\<exists>es1 x es2. m = (es1, Inr x) \<and> k x = (es2, Inr y) \<and> es = es1 @ es2"
  using assms by (cases m) (auto simp: andThen_def split: sum.splits prod.splits)

lemma await_val_Inr: "await_val e r = (es, Inr x) \<Longrightarrow> r = Inr x \<and> es = [e]"
  by (auto simp: await_val_def)

lemma await_unit_Inr: "await_unit e r = (es, Inr x) \<Longrightarrow> r = None \<and> es = [e]"
  by (auto simp: await_unit_def split: option.splits)

lemma pageSession_Inr:
  assumes "pageSession c s req = (es, Inr rc)"
  shows "\<exists>content. goto_r s = Inr (fst rc) \<and> content_r s = Inr content \<and> snd rc = content
           \<and> close_r s = None \<and> es \<noteq> [] \<and> last es = PageClose"
  using assms unfolding pageSession_def
  by (auto dest!: andThen_Inr await_val_Inr await_unit_Inr simp: done_with_def)

lemma classify_Inr:
  assumes "classify c fa n (response, content) = (es, Inr r)"
  shows "\<exists>resp st. response = Some resp \<and> nav_status resp = Some st \<and> isSuccess c st \<and> es = []
           \<and> r = \<lparr>body = content, headers = nav_headers resp,
                  status = (if st = 0 then 200 else st),
                  statusText = (if nav_statusText resp = [] then ''Ok'' else nav_statusText resp),
                  attempts = n + 1, failedAttempts = fa\<rparr>"
  using assms
  by (auto simp: classify_def throw_def done_with_def split: option.splits if_splits)

lemma tryBlock_Inr:
  assumes "snd (snd (tryBlock c s req fa n)) = Inr r"
  shows "\<exists>resp st content. goto_r s = Inr (Some resp) \<and> nav_status resp = Some st
           \<and> isSuccess c st \<and> content_r s = Inr content \<and> close_r s = None
           \<and> r = \<lparr>body = content, headers = nav_headers resp,
                  status = (if st = 0 then 200 else st),
                  statusText = (if nav_statusText resp = [] then ''Ok'' else nav_statusText resp),
                  attempts = n + 1, failedAttempts = fa\<rparr>"
proof -
  from assms obtain b es where b: "browser c = Some b" and np: "newPage_r s = None"
    and t: "andThen ([NewPage b], Inr ()) (\<lambda>_.
                andThen (pageSession c s req) (classify c fa n)) = (es, Inr r)"
    by (cases "andThen ([NewPage (the (browser c))], Inr ()) (\<lambda>_.
                andThen (pageSession c s req) (classify c fa n))")
       (auto simp: tryBlock_def throw_def split: option.splits)
  from t obtain e1 e2 rc where ps: "pageSession c s req = (e1, Inr rc)"
    and cl: "classify c fa n rc = (e2, Inr r)"
    by (auto dest!: andThen_Inr)
  from cl have cl': "classify c fa n (fst rc, snd rc) = (e2, Inr r)" by simp
  from classify_Inr [OF cl'] obtain resp st where
    1: "fst rc = Some resp" "nav_status resp = Some st" "isSuccess c st"
    and 2: "r = \<lparr>body = snd rc, headers = nav_headers resp,
                  status = (if st = 0 then 200 else st),
                  statusText = (if nav_statusText resp = [] then ''Ok'' else nav_statusText resp),
                  attempts = n + 1, failedAttempts = fa\<rparr>"
    by blast
  from pageSession_Inr [OF ps] have
    3: "goto_r s = Inr (fst rc)" "content_r s = Inr (snd rc)" "close_r s = None"
    by auto
  show ?thesis
    by (rule exI [of _ resp], rule exI [of _ st], rule exI [of _ "snd rc"])
       (use 1 2 3 in \<open>simp (no_asm_simp)\<close>)
qed


section \<open>The outcome of fetch\<close>

lemmas engine_defs =
  tryBlock_def pageSession_def classify_def configurePage_def fullUrl_def andThen_def
  await_unit_def await_val_def done_with_def throw_def truthy_def extractActions_def
  InvalidStatusCodeError_def typeError_def

lemmas catch_defs =
  errorMessage_def errorStatus_def status_or_500_def failedResponse_def delayEvents_def
  maxRetriesOf_def retriesOf_def

lemmas lifecycle_defs =
  ensureBrowser_def initBrowser_def initBrowser_call_def initBrowser_resume_def
  puppeteerArguments_def closeBrowser_def close_def

lemmas example_defs =
  ex_client_def ex_started_def ok_script_def nav_error_script_def ex_request_def
  env_always_fails_def env_third_succeeds_def env_status_zero_def env_throws_null_def
  env_connect_fails_def env_no_response_def env_close_fails_once_def
  env_null_then_error_def env_after_action_throws_def env_after_action_throws_null_def


lemma fetch_started:
  assumes "ensureBrowser c (connect_r env) = (c', evs0, None)"
  shows "fetch c env req =
           (c', evs0 @ fst (attemptRequest c' (page_r env) req [] (retriesOf req)),
            snd (attemptRequest c' (page_r env) req [] (retriesOf req)))"
  using assms by (simp add: fetch_def split: prod.splits)

lemma fetch_startup_fails:
  assumes "ensureBrowser c (connect_r env) = (c', evs0, Some t)"
  shows "fetch c env req = (c', evs0, Inl t)"
  using assms by (simp add: fetch_def)

lemma failedResponse_Inr:
  assumes "e \<noteq> Nullish"
  shows "failedResponse e fa n =
           Inr \<lparr>body = errorMessage e, headers = [],
                status = (case e of JsError m st \<Rightarrow> status_or_500 st | NonError st \<Rightarrow> status_or_500 st | Nullish \<Rightarrow> 500),
                statusText = ''Request Failed'', attempts = n + 1, failedAttempts = fa\<rparr>"
  using assms by (cases e) (simp_all add: failedResponse_def errorStatus_def)

text \<open>
  C3, as amended. Let browser startup succeed (or a browser be stored already), the base retry
  count be 0 and \<^verbatim>\<open>maxRetries\<close> be at least 0. If every attempt \<open>0, ..., maxRetries\<close> fails and
  the value thrown by the last one is not \<^verbatim>\<open>null\<close>/\<^verbatim>\<open>undefined\<close>, then \<^verbatim>\<open>fetch\<close> returns a
  response with \<^verbatim>\<open>attempts = maxRetries + 1\<close>, as many failed-attempt records as attempts
  (one per attempt, in order), status the non-zero status carried by the last error and 500
  when it carries none or carries 0, status text \<^verbatim>\<open>Request Failed\<close>, and body the last error's
  message, or \<^verbatim>\<open>Unknown error\<close> when the thrown value is not an \<^verbatim>\<open>Error\<close>.
\<close>

theorem fetch_exhausted_retries:
  assumes startup: "ensureBrowser c (connect_r env) = (c', evs0, None)"
    and base: "retriesOf req = 0"
    and bound: "0 \<le> maxRetriesOf req"
    and fails: "\<forall>k. 0 \<le> k \<and> k \<le> maxRetriesOf req \<longrightarrow> attemptError c' (page_r env k) req \<noteq> None"
    and last: "attemptError c' (page_r env (maxRetriesOf req)) req = Some e"
    and nn: "e \<noteq> Nullish"
  shows "\<exists>evs r. fetch c env req = (c', evs, Inr r)
           \<and> attempts r = maxRetriesOf req + 1
           \<and> int (length (failedAttempts r)) = attempts r
           \<and> failedAttempts r = map (\<lambda>k. failureRecord c' (page_r env k) req) [0..maxRetriesOf req]
           \<and> status r =
               (case e of
                  JsError m None \<Rightarrow> 500
                | JsError m (Some st) \<Rightarrow> if st = 0 then 500 else st
                | NonError None \<Rightarrow> 500
                | NonError (Some st) \<Rightarrow> if st = 0 then 500 else st
                | Nullish \<Rightarrow> 500)
           \<and> statusText r = ''Request Failed''
           \<and> body r = (case e of JsError m st \<Rightarrow> m | NonError st \<Rightarrow> ''Unknown error'' | Nullish \<Rightarrow> ''Unknown error'')"
proof -
  let ?fa = "map (\<lambda>k. failureRecord c' (page_r env k) req) [0..maxRetriesOf req]"
  have "snd (attemptRequest c' (page_r env) req [] 0) =
          failedResponse e ([] @ ?fa) (maxRetriesOf req)"
    using attemptRequest_all_fail [of 0 "maxRetriesOf req" c' "page_r env" req "[]"]
      fails bound last by simp
  then have res: "snd (attemptRequest c' (page_r env) req [] (retriesOf req)) =
      Inr \<lparr>body = errorMessage e, headers = [],
           status = (case e of JsError m st \<Rightarrow> status_or_500 st | NonError st \<Rightarrow> status_or_500 st | Nullish \<Rightarrow> 500),
           statusText = ''Request Failed'', attempts = maxRetriesOf req + 1, failedAttempts = ?fa\<rparr>"
    using failedResponse_Inr [OF nn] base by simp
  have len: "int (length ?fa) = maxRetriesOf req + 1"
    using bound by simp
  show ?thesis
    unfolding fetch_started [OF startup] res
    using len
    by (cases e) (auto simp: errorMessage_def status_or_500_def split: option.splits)
qed

text \<open>
  C4. Let \<^verbatim>\<open>fetch\<close> be called with base retry count 0 and end on the success path: the
  attempts \<open>0, ..., n - 1\<close> fail and are retried, and attempt \<open>n\<close> succeeds. Then the returned
  response has \<^verbatim>\<open>attempts = 1 + n\<close>, which is at least 1, and \<^verbatim>\<open>failedAttempts\<close> lists exactly
  the \<open>n\<close> failures that came before, in order; its status is the navigation status of
  attempt \<open>n\<close> (200 in place of 0). In particular with \<^verbatim>\<open>maxRetries = 2\<close>, two failed attempts
  and a third attempt with status 200 give status 200, 3 attempts and 2 failed-attempt records.
\<close>

theorem fetch_success_path:
  assumes startup: "ensureBrowser c (connect_r env) = (c', evs0, None)"
    and base: "retriesOf req = 0"
    and n0: "0 \<le> n"
    and fails: "\<forall>k. 0 \<le> k \<and> k < n \<longrightarrow>
                 attemptError c' (page_r env k) req \<noteq> None \<and> k < maxRetriesOf req"
    and ok: "attemptError c' (page_r env n) req = None"
  shows "\<exists>evs r. fetch c env req = (c', evs, Inr r)
           \<and> 1 \<le> attempts r
           \<and> attempts r = 1 + n
           \<and> int (length (failedAttempts r)) = n
           \<and> failedAttempts r = map (\<lambda>k. failureRecord c' (page_r env k) req) [0..n - 1]
           \<and> (\<exists>resp st. goto_r (page_r env n) = Inr (Some resp) \<and> nav_status resp = Some st
                 \<and> isSuccess c' st \<and> status r = (if st = 0 then 200 else st))
           \<and> (maxRetriesOf req = 2 \<and> n = 2
                 \<and> (\<exists>resp. goto_r (page_r env 2) = Inr (Some resp) \<and> nav_status resp = Some 200)
               \<longrightarrow> status r = 200 \<and> attempts r = 3 \<and> length (failedAttempts r) = 2)"
proof -
  let ?fa = "map (\<lambda>k. failureRecord c' (page_r env k) req) [0..n - 1]"
  have reach: "n \<le> maxRetriesOf req \<or> n = 0"
    using fails n0 by (cases "n = 0") (auto dest: spec [of _ "n - 1"])
  have eq: "snd (attemptRequest c' (page_r env) req [] 0) =
          snd (snd (tryBlock c' (page_r env n) req ([] @ ?fa) n))"
    using attemptRequest_succeeds_at [of 0 n c' "page_r env" req "[]"] fails ok n0 reach
    by auto
  from tryBlock_result [of c' "page_r env n" req ?fa n] ok
  obtain r where r: "snd (snd (tryBlock c' (page_r env n) req ?fa n)) = Inr r"
    by simp
  from tryBlock_Inr [OF r] obtain resp st content where
    g: "goto_r (page_r env n) = Inr (Some resp)" "nav_status resp = Some st" "isSuccess c' st"
    and rr: "r = \<lparr>body = content, headers = nav_headers resp,
                  status = (if st = 0 then 200 else st),
                  statusText = (if nav_statusText resp = [] then ''Ok'' else nav_statusText resp),
                  attempts = n + 1, failedAttempts = ?fa\<rparr>"
    by blast
  have len: "int (length ?fa) = n" using n0 by simp
  have res: "snd (attemptRequest c' (page_r env) req [] (retriesOf req)) = Inr r"
    using eq r base by simp
  have st: "status r = (if st = 0 then 200 else st)" using rr by simp
  have at: "attempts r = 1 + n" using rr by simp
  have fa: "failedAttempts r = ?fa" using rr by simp
  show ?thesis
    unfolding fetch_started [OF startup] res
    using g st at fa len n0 by auto
qed

lemma ensureBrowser_ok:
  assumes "ensureBrowser c r = (c', evs, None)"
  shows "\<exists>b. browser c' = Some b"
  using assms
  by (auto simp: ensureBrowser_def initBrowser_def initBrowser_resume_def
        split: if_splits sum.splits)

text \<open>
  The run of \<^verbatim>\<open>attemptRequest\<close> from attempt \<open>n\<close>: it ends at an attempt \<open>j\<close>, after the attempts
  \<open>n, ..., j - 1\<close> have failed with a retry left; either attempt \<open>j\<close> succeeds and its response
  is returned with the records of the failures before it, or it fails with no retry left and
  the \<^verbatim>\<open>catch\<close> block answers with all the records.
\<close>

lemma attemptRequest_outcome:
  "\<exists>j. n \<le> j
     \<and> (\<forall>k. n \<le> k \<and> k < j \<longrightarrow> attemptError c (env k) req \<noteq> None \<and> k < maxRetriesOf req)
     \<and> (attemptError c (env j) req = None \<longrightarrow>
          snd (attemptRequest c env req fa n) =
            snd (snd (tryBlock c (env j) req
              (fa @ map (\<lambda>k. failureRecord c (env k) req) [n..j - 1]) j)))
     \<and> (\<forall>e. attemptError c (env j) req = Some e \<longrightarrow>
          \<not> j < maxRetriesOf req
          \<and> snd (attemptRequest c env req fa n) =
              failedResponse e (fa @ map (\<lambda>k. failureRecord c (env k) req) [n..j]) j)"
proof (induction "nat (maxRetriesOf req - n)" arbitrary: n fa)
  case 0
  then have last: "\<not> n < maxRetriesOf req" by simp
  have a: "attemptError c (env n) req = None \<longrightarrow>
          snd (attemptRequest c env req fa n) = snd (snd (tryBlock c (env n) req fa n))"
    using attemptRequest_success [of c env n req fa] by blast
  have b: "\<forall>e. attemptError c (env n) req = Some e \<longrightarrow>
          snd (attemptRequest c env req fa n) = failedResponse e (fa @ [failureRecord c (env n) req]) n"
    using attemptRequest_final [of c env n req _ fa] last by blast
  have v: "\<forall>k. n \<le> k \<and> k < n \<longrightarrow> attemptError c (env k) req \<noteq> None \<and> k < maxRetriesOf req"
    by linarith
  have l: "[n..n - 1] = []" by simp
  have a': "attemptError c (env n) req = None \<longrightarrow>
          snd (attemptRequest c env req fa n) =
            snd (snd (tryBlock c (env n) req
              (fa @ map (\<lambda>k. failureRecord c (env k) req) [n..n - 1]) n))"
    using a by simp
  have b': "\<forall>e. attemptError c (env n) req = Some e \<longrightarrow>
          \<not> n < maxRetriesOf req
          \<and> snd (attemptRequest c env req fa n) =
              failedResponse e (fa @ map (\<lambda>k. failureRecord c (env k) req) [n..n]) n"
    using b last by simp
  show ?case
    apply (rule exI [of _ n])
    apply (intro conjI)
       apply simp
      apply (rule v)
     apply (rule a')
    apply (rule b')
    done
next
  case (Suc d)
  then have lt: "n < maxRetriesOf req" by linarith
  show ?case
  proof (cases "attemptError c (env n) req")
    case None
    have v: "\<forall>k. n \<le> k \<and> k < n \<longrightarrow> attemptError c (env k) req \<noteq> None \<and> k < maxRetriesOf req"
      by linarith
    have a': "attemptError c (env n) req = None \<longrightarrow>
          snd (attemptRequest c env req fa n) =
            snd (snd (tryBlock c (env n) req
              (fa @ map (\<lambda>k. failureRecord c (env k) req) [n..n - 1]) n))"
      using attemptRequest_success [of c env n req fa] by simp
    have b': "\<forall>e. attemptError c (env n) req = Some e \<longrightarrow>
          \<not> n < maxRetriesOf req
          \<and> snd (attemptRequest c env req fa n) =
              failedResponse e (fa @ map (\<lambda>k. failureRecord c (env k) req) [n..n]) n"
      using None by simp
    show ?thesis
      apply (rule exI [of _ n])
      apply (intro conjI)
         apply simp
        apply (rule v)
       apply (rule a')
      apply (rule b')
      done
  next
    case (Some e)
    have d: "d = nat (maxRetriesOf req - (n + 1))" using Suc.hyps(2) by linarith
    let ?fa = "fa @ [failureRecord c (env n) req]"
    from Suc.hyps(1) [OF d, of ?fa] obtain j where jj: "n + 1 \<le> j
      \<and> (\<forall>k. n + 1 \<le> k \<and> k < j \<longrightarrow> attemptError c (env k) req \<noteq> None \<and> k < maxRetriesOf req)
      \<and> (attemptError c (env j) req = None \<longrightarrow>
          snd (attemptRequest c env req ?fa (n + 1)) =
            snd (snd (tryBlock c (env j) req
              (?fa @ map (\<lambda>k. failureRecord c (env k) req) [n + 1..j - 1]) j)))
      \<and> (\<forall>e. attemptError c (env j) req = Some e \<longrightarrow>
          \<not> j < maxRetriesOf req
          \<and> snd (attemptRequest c env req ?fa (n + 1)) =
              failedResponse e (?fa @ map (\<lambda>k. failureRecord c (env k) req) [n + 1..j]) j)" ..
    note j = jj [THEN conjunct1]
    note before = jj [THEN conjunct2, THEN conjunct1]
    note ok = jj [THEN conjunct2, THEN conjunct2, THEN conjunct1]
    note ko = jj [THEN conjunct2, THEN conjunct2, THEN conjunct2]
    have step: "snd (attemptRequest c env req fa n) = snd (attemptRequest c env req ?fa (n + 1))"
      using attemptRequest_retry [of c env n req e fa] Some lt by simp
    have l1: "[n..j - 1] = n # [n + 1..j - 1]" using j by (simp add: upto_rec1)
    have l2: "[n..j] = n # [n + 1..j]" using j by (simp add: upto_rec1)
    have b': "\<forall>k. n \<le> k \<and> k < j \<longrightarrow> attemptError c (env k) req \<noteq> None \<and> k < maxRetriesOf req"
    proof (intro allI impI)
      fix k assume k: "n \<le> k \<and> k < j"
      show "attemptError c (env k) req \<noteq> None \<and> k < maxRetriesOf req"
      proof (cases "k = n")
        case True then show ?thesis using Some lt by simp
      next
        case False then show ?thesis using before k by simp
      qed
    qed
    have j': "n \<le> j" using j by simp
    have ok': "attemptError c (env j) req = None \<longrightarrow>
          snd (attemptRequest c env req fa n) =
            snd (snd (tryBlock c (env j) req
              (fa @ map (\<lambda>k. failureRecord c (env k) req) [n..j - 1]) j))"
      unfolding step l1 using ok by simp
    have ko': "\<forall>e. attemptError c (env j) req = Some e \<longrightarrow>
          \<not> j < maxRetriesOf req
          \<and> snd (attemptRequest c env req fa n) =
              failedResponse e (fa @ map (\<lambda>k. failureRecord c (env k) req) [n..j]) j"
      unfolding step l2 using ko by simp
    show ?thesis
      apply (rule exI [of _ j])
      apply (intro conjI)
         apply (rule j')
        apply (rule b')
       apply (rule ok')
      apply (rule ko')
      done
  qed
qed

text \<open>
  C1, as amended. When \<^verbatim>\<open>ensureBrowser\<close> rejects, \<^verbatim>\<open>fetch\<close> rejects with the same value: browser
  startup is outside the \<^verbatim>\<open>try\<close> block. When it completes (a browser is stored already, or the
  engine starts), the run ends at one attempt \<open>j\<close>, every attempt before it having failed with a
  retry left, whatever failed in them (page creation, configuration, an action, navigation,
  reading the content, closing the page, the status check) and whatever they threw. If attempt
  \<open>j\<close> succeeds, \<^verbatim>\<open>fetch\<close> returns its response with \<^verbatim>\<open>attempts = j + 1\<close> and one failed-attempt
  record for every attempt before it, in order. If attempt \<open>j\<close> fails, no retry is left, and
  unless the value it threw is \<^verbatim>\<open>null\<close>/\<^verbatim>\<open>undefined\<close>, \<^verbatim>\<open>fetch\<close> returns a response that encodes
  the failure: status the non-zero status carried by the thrown value and 500 otherwise, status
  text \<^verbatim>\<open>Request Failed\<close>, body the error message, \<^verbatim>\<open>attempts = j + 1\<close>, and one failed-attempt
  record for every attempt up to \<open>j\<close>, in order. Retry counts are integers.
\<close>

theorem fetch_failures_encoded:
  assumes "ensureBrowser c (connect_r env) = (c', evs0, st)"
  shows "(st = None \<longrightarrow>
            (\<exists>j. retriesOf req \<le> j
               \<and> (\<forall>k. retriesOf req \<le> k \<and> k < j \<longrightarrow>
                      attemptError c' (page_r env k) req \<noteq> None \<and> k < maxRetriesOf req)
               \<and> (attemptError c' (page_r env j) req = None \<longrightarrow>
                     (\<exists>evs resp code content.
                        goto_r (page_r env j) = Inr (Some resp) \<and> nav_status resp = Some code
                        \<and> isSuccess c' code \<and> content_r (page_r env j) = Inr content
                        \<and> fetch c env req =
                            (c', evs,
                             Inr \<lparr>body = content, headers = nav_headers resp,
                                  status = (if code = 0 then 200 else code),
                                  statusText =
                                    (if nav_statusText resp = [] then ''Ok'' else nav_statusText resp),
                                  attempts = j + 1,
                                  failedAttempts =
                                    map (\<lambda>k. failureRecord c' (page_r env k) req)
                                      [retriesOf req..j - 1]\<rparr>)))
               \<and> (\<forall>e. attemptError c' (page_r env j) req = Some e \<longrightarrow>
                     \<not> j < maxRetriesOf req
                     \<and> (e \<noteq> Nullish \<longrightarrow>
                          (\<exists>evs. fetch c env req =
                             (c', evs,
                              Inr \<lparr>body =
                                     (case e of JsError m code \<Rightarrow> m
                                      | NonError code \<Rightarrow> ''Unknown error''
                                      | Nullish \<Rightarrow> ''Unknown error''),
                                   headers = [],
                                   status =
                                     (case e of
                                        JsError m None \<Rightarrow> 500
                                      | JsError m (Some code) \<Rightarrow> if code = 0 then 500 else code
                                      | NonError None \<Rightarrow> 500
                                      | NonError (Some code) \<Rightarrow> if code = 0 then 500 else code
                                      | Nullish \<Rightarrow> 500),
                                   statusText = ''Request Failed'',
                                   attempts = j + 1,
                                   failedAttempts =
                                     map (\<lambda>k. failureRecord c' (page_r env k) req)
                                       [retriesOf req..j]\<rparr>))))))
         \<and> (\<forall>t. st = Some t \<longrightarrow> fetch c env req = (c', evs0, Inl t))"
proof (intro conjI impI allI)
  let ?n = "retriesOf req"
  let ?rec = "\<lambda>k. failureRecord c' (page_r env k) req"
  assume none: "st = None"
  then have startup: "ensureBrowser c (connect_r env) = (c', evs0, None)"
    using assms by simp
  from attemptRequest_outcome [of ?n c' "page_r env" req "[]"] obtain j where jj:
    "?n \<le> j
     \<and> (\<forall>k. ?n \<le> k \<and> k < j \<longrightarrow> attemptError c' (page_r env k) req \<noteq> None \<and> k < maxRetriesOf req)
     \<and> (attemptError c' (page_r env j) req = None \<longrightarrow>
          snd (attemptRequest c' (page_r env) req [] ?n) =
            snd (snd (tryBlock c' (page_r env j) req ([] @ map ?rec [?n..j - 1]) j)))
     \<and> (\<forall>e. attemptError c' (page_r env j) req = Some e \<longrightarrow>
          \<not> j < maxRetriesOf req
          \<and> snd (attemptRequest c' (page_r env) req [] ?n) =
              failedResponse e ([] @ map ?rec [?n..j]) j)" ..
  note j = jj [THEN conjunct1]
  note before = jj [THEN conjunct2, THEN conjunct1]
  note ok = jj [THEN conjunct2, THEN conjunct2, THEN conjunct1]
  note ko = jj [THEN conjunct2, THEN conjunct2, THEN conjunct2]
  have success: "attemptError c' (page_r env j) req = None \<longrightarrow>
      (\<exists>evs resp code content.
          goto_r (page_r env j) = Inr (Some resp) \<and> nav_status resp = Some code
          \<and> isSuccess c' code \<and> content_r (page_r env j) = Inr content
          \<and> fetch c env req =
              (c', evs,
               Inr \<lparr>body = content, headers = nav_headers resp,
                    status = (if code = 0 then 200 else code),
                    statusText = (if nav_statusText resp = [] then ''Ok'' else nav_statusText resp),
                    attempts = j + 1,
                    failedAttempts = map ?rec [?n..j - 1]\<rparr>))"
  proof
    assume a: "attemptError c' (page_r env j) req = None"
    from tryBlock_result [of c' "page_r env j" req "map ?rec [?n..j - 1]" j] a
    obtain r where r: "snd (snd (tryBlock c' (page_r env j) req (map ?rec [?n..j - 1]) j)) = Inr r"
      by simp
    from tryBlock_Inr [OF r] obtain resp code content where
      g: "goto_r (page_r env j) = Inr (Some resp)" "nav_status resp = Some code" "isSuccess c' code"
         "content_r (page_r env j) = Inr content"
      and rr: "r = \<lparr>body = content, headers = nav_headers resp,
                    status = (if code = 0 then 200 else code),
                    statusText = (if nav_statusText resp = [] then ''Ok'' else nav_statusText resp),
                    attempts = j + 1, failedAttempts = map ?rec [?n..j - 1]\<rparr>"
      by blast
    have res: "snd (attemptRequest c' (page_r env) req [] ?n) = Inr r"
      using ok a r by simp
    show "\<exists>evs resp code content.
          goto_r (page_r env j) = Inr (Some resp) \<and> nav_status resp = Some code
          \<and> isSuccess c' code \<and> content_r (page_r env j) = Inr content
          \<and> fetch c env req =
              (c', evs,
               Inr \<lparr>body = content, headers = nav_headers resp,
                    status = (if code = 0 then 200 else code),
                    statusText = (if nav_statusText resp = [] then ''Ok'' else nav_statusText resp),
                    attempts = j + 1,
                    failedAttempts = map ?rec [?n..j - 1]\<rparr>)"
      unfolding fetch_started [OF startup] res rr
      using g by (intro exI [of _ "evs0 @ fst (attemptRequest c' (page_r env) req [] ?n)"]
                    exI [of _ resp] exI [of _ code] exI [of _ content]) simp
  qed
  have failure: "\<forall>e. attemptError c' (page_r env j) req = Some e \<longrightarrow>
      \<not> j < maxRetriesOf req
      \<and> (e \<noteq> Nullish \<longrightarrow>
           (\<exists>evs. fetch c env req =
              (c', evs,
               Inr \<lparr>body =
                      (case e of JsError m code \<Rightarrow> m
                       | NonError code \<Rightarrow> ''Unknown error''
                       | Nullish \<Rightarrow> ''Unknown error''),
                    headers = [],
                    status =
                      (case e of
                         JsError m None \<Rightarrow> 500
                       | JsError m (Some code) \<Rightarrow> if code = 0 then 500 else code
                       | NonError None \<Rightarrow> 500
                       | NonError (Some code) \<Rightarrow> if code = 0 then 500 else code
                       | Nullish \<Rightarrow> 500),
                    statusText = ''Request Failed'',
                    attempts = j + 1,
                    failedAttempts = map ?rec [?n..j]\<rparr>)))"
  proof (intro allI impI conjI)
    fix e assume a: "attemptError c' (page_r env j) req = Some e"
    then show "\<not> j < maxRetriesOf req" using ko by simp
    assume nn: "e \<noteq> Nullish"
    have res: "snd (attemptRequest c' (page_r env) req [] ?n) =
        Inr \<lparr>body = errorMessage e, headers = [],
             status = (case e of JsError m st \<Rightarrow> status_or_500 st | NonError st \<Rightarrow> status_or_500 st | Nullish \<Rightarrow> 500),
             statusText = ''Request Failed'', attempts = j + 1, failedAttempts = map ?rec [?n..j]\<rparr>"
      using ko a failedResponse_Inr [OF nn] by simp
    show "\<exists>evs. fetch c env req =
              (c', evs,
               Inr \<lparr>body =
                      (case e of JsError m code \<Rightarrow> m
                       | NonError code \<Rightarrow> ''Unknown error''
                       | Nullish \<Rightarrow> ''Unknown error''),
                    headers = [],
                    status =
                      (case e of
                         JsError m None \<Rightarrow> 500
                       | JsError m (Some code) \<Rightarrow> if code = 0 then 500 else code
                       | NonError None \<Rightarrow> 500
                       | NonError (Some code) \<Rightarrow> if code = 0 then 500 else code
                       | Nullish \<Rightarrow> 500),
                    statusText = ''Request Failed'',
                    attempts = j + 1,
                    failedAttempts = map ?rec [?n..j]\<rparr>)"
      unfolding fetch_started [OF startup] res
      by (cases e) (auto simp: errorMessage_def status_or_500_def split: option.splits)
  qed
  show "\<exists>j. retriesOf req \<le> j
               \<and> (\<forall>k. retriesOf req \<le> k \<and> k < j \<longrightarrow>
                      attemptError c' (page_r env k) req \<noteq> None \<and> k < maxRetriesOf req)
               \<and> (attemptError c' (page_r env j) req = None \<longrightarrow>
                     (\<exists>evs resp code content.
                        goto_r (page_r env j) = Inr (Some resp) \<and> nav_status resp = Some code
                        \<and> isSuccess c' code \<and> content_r (page_r env j) = Inr content
                        \<and> fetch c env req =
                            (c', evs,
                             Inr \<lparr>body = content, headers = nav_headers resp,
                                  status = (if code = 0 then 200 else code),
                                  statusText =
                                    (if nav_statusText resp = [] then ''Ok'' else nav_statusText resp),
                                  attempts = j + 1,
                                  failedAttempts =
                                    map (\<lambda>k. failureRecord c' (page_r env k) req)
                                      [retriesOf req..j - 1]\<rparr>)))
               \<and> (\<forall>e. attemptError c' (page_r env j) req = Some e \<longrightarrow>
                     \<not> j < maxRetriesOf req
                     \<and> (e \<noteq> Nullish \<longrightarrow>
                          (\<exists>evs. fetch c env req =
                             (c', evs,
                              Inr \<lparr>body =
                                     (case e of JsError m code \<Rightarrow> m
                                      | NonError code \<Rightarrow> ''Unknown error''
                                      | Nullish \<Rightarrow> ''Unknown error''),
                                   headers = [],
                                   status =
                                     (case e of
                                        JsError m None \<Rightarrow> 500
                                      | JsError m (Some code) \<Rightarrow> if code = 0 then 500 else code
                                      | NonError None \<Rightarrow> 500
                                      | NonError (Some code) \<Rightarrow> if code = 0 then 500 else code
                                      | Nullish \<Rightarrow> 500),
                                   statusText = ''Request Failed'',
                                   attempts = j + 1,
                                   failedAttempts =
                                     map (\<lambda>k. failureRecord c' (page_r env k) req)
                                       [retriesOf req..j]\<rparr>))))"
    apply (rule exI [of _ j])
    apply (intro conjI)
       apply (rule j)
      apply (rule before)
     apply (rule success)
    apply (rule failure)
    done
next
  fix t assume "st = Some t"
  then show "fetch c env req = (c', evs0, Inl t)"
    using fetch_startup_fails [of c env c' evs0 t req] assms by simp
qed

lemma tryBlock_not_Inr:
  assumes "goto_r s = Inr None \<or> (\<exists>resp. goto_r s = Inr (Some resp) \<and> nav_status resp = None)"
  shows "attemptError c s req \<noteq> None"
proof
  assume "attemptError c s req = None"
  then obtain r where "snd (snd (tryBlock c s req [] 0)) = Inr r"
    using tryBlock_result [of c s req "[]" 0] by simp
  from tryBlock_Inr [OF this] assms show False by auto
qed

lemma tryBlock_invalid_status:
  assumes "browser c = Some b" and "newPage_r s = None"
    and "pageSession c s req = (es, Inr (response, content))"
    and "response = None \<or> (\<exists>resp. response = Some resp \<and> nav_status resp = None)"
  shows "attemptError c s req = Some (JsError (invalidStatusMessage c 500) (Some 500))"
  using assms
  by (auto simp: attemptError_def tryBlock_def andThen_def classify_def throw_def
        InvalidStatusCodeError_def)

text \<open>
  C5, as amended. An attempt whose navigation returns no response object, or a response with an
  undefined status, fails, whatever the success predicate \<open>p\<close> is. Let browser startup succeed,
  \<^verbatim>\<open>maxRetries\<close> be 0 and the base retry count be at least 0, and let the navigation of the
  attempt return no response object or an undefined status. Then the attempt throws a value
  \<open>e\<close>; unless \<open>e\<close> is \<^verbatim>\<open>null\<close>/\<^verbatim>\<open>undefined\<close>, \<^verbatim>\<open>fetch\<close> returns a response with exactly one
  failed-attempt record, the one of \<open>e\<close>, status text \<^verbatim>\<open>Request Failed\<close>, and the status \<open>e\<close>
  carries when that is not zero, 500 otherwise. When no other step of the attempt throws (the
  page is created and the steps up to the \<^verbatim>\<open>page.close()\<close> of the \<^verbatim>\<open>try\<close> block complete), \<open>e\<close> is
  the invalid-status error with 500, so the status is 500.
\<close>

theorem undefined_status_is_failure:
  "((goto_r s = Inr None \<or> (\<exists>resp. goto_r s = Inr (Some resp) \<and> nav_status resp = None))
      \<longrightarrow> attemptError (c0\<lparr>isSuccess := p\<rparr>) s req0 \<noteq> None)
   \<and> (ensureBrowser c (connect_r env) = (c', evs0, None)
      \<and> maxRetriesOf req = 0 \<and> 0 \<le> retriesOf req
      \<and> (goto_r (page_r env (retriesOf req)) = Inr None
          \<or> (\<exists>resp. goto_r (page_r env (retriesOf req)) = Inr (Some resp) \<and> nav_status resp = None))
      \<longrightarrow> (\<exists>e. attemptError c' (page_r env (retriesOf req)) req = Some e
            \<and> (e \<noteq> Nullish \<longrightarrow>
                 (\<exists>evs. fetch c env req =
                    (c', evs,
                     Inr \<lparr>body =
                            (case e of JsError m code \<Rightarrow> m
                             | NonError code \<Rightarrow> ''Unknown error''
                             | Nullish \<Rightarrow> ''Unknown error''),
                          headers = [],
                          status =
                            (case e of
                               JsError m None \<Rightarrow> 500
                             | JsError m (Some code) \<Rightarrow> if code = 0 then 500 else code
                             | NonError None \<Rightarrow> 500
                             | NonError (Some code) \<Rightarrow> if code = 0 then 500 else code
                             | Nullish \<Rightarrow> 500),
                          statusText = ''Request Failed'',
                          attempts = retriesOf req + 1,
                          failedAttempts =
                            [\<lparr>error =
                                (case e of JsError m code \<Rightarrow> m
                                 | NonError code \<Rightarrow> ''Unknown error''
                                 | Nullish \<Rightarrow> ''Unknown error''),
                              timestamp = now (page_r env (retriesOf req))\<rparr>]\<rparr>)))
            \<and> (newPage_r (page_r env (retriesOf req)) = None
                \<and> (\<exists>es rc. pageSession c' (page_r env (retriesOf req)) req = (es, Inr rc))
                \<longrightarrow> e = JsError (invalidStatusMessage c' 500) (Some 500)
                    \<and> (\<exists>evs r. fetch c env req = (c', evs, Inr r)
                          \<and> status r = 500
                          \<and> length (failedAttempts r) = 1))))"
proof (intro conjI impI)
  assume "goto_r s = Inr None \<or> (\<exists>resp. goto_r s = Inr (Some resp) \<and> nav_status resp = None)"
  then show "attemptError (c0\<lparr>isSuccess := p\<rparr>) s req0 \<noteq> None"
    by (rule tryBlock_not_Inr)
next
  let ?n = "retriesOf req"
  let ?s = "page_r env ?n"
  let ?msg = "\<lambda>e. case e of JsError m code \<Rightarrow> m
                   | NonError code \<Rightarrow> ''Unknown error''
                   | Nullish \<Rightarrow> ''Unknown error''"
  let ?st = "\<lambda>e. case e of
                   JsError m None \<Rightarrow> 500
                 | JsError m (Some code) \<Rightarrow> if code = 0 then 500 else code
                 | NonError None \<Rightarrow> 500
                 | NonError (Some code) \<Rightarrow> if code = 0 then 500 else code
                 | Nullish \<Rightarrow> (500::int)"
  assume a: "ensureBrowser c (connect_r env) = (c', evs0, None)
      \<and> maxRetriesOf req = 0 \<and> 0 \<le> retriesOf req
      \<and> (goto_r ?s = Inr None \<or> (\<exists>resp. goto_r ?s = Inr (Some resp) \<and> nav_status resp = None))"
  then have startup: "ensureBrowser c (connect_r env) = (c', evs0, None)"
    and last: "\<not> ?n < maxRetriesOf req"
    and nav: "goto_r ?s = Inr None \<or> (\<exists>resp. goto_r ?s = Inr (Some resp) \<and> nav_status resp = None)"
    by simp_all
  from startup obtain b where b: "browser c' = Some b"
    using ensureBrowser_ok by blast
  from tryBlock_not_Inr [OF nav, of c' req] obtain e where e: "attemptError c' ?s req = Some e"
    by blast
  have rec: "failureRecord c' ?s req = \<lparr>error = ?msg e, timestamp = now ?s\<rparr>"
    using e by (simp add: failureRecord_def errorMessage_def)
  have fin: "snd (attemptRequest c' (page_r env) req [] ?n) =
          failedResponse e ([] @ [failureRecord c' ?s req]) ?n"
    using attemptRequest_final [of c' "page_r env" ?n req e "[]"] e last by simp
  have general: "e \<noteq> Nullish \<longrightarrow>
      (\<exists>evs. fetch c env req =
         (c', evs,
          Inr \<lparr>body = ?msg e, headers = [], status = ?st e, statusText = ''Request Failed'',
               attempts = ?n + 1,
               failedAttempts = [\<lparr>error = ?msg e, timestamp = now ?s\<rparr>]\<rparr>))"
  proof
    assume nn: "e \<noteq> Nullish"
    have res: "snd (attemptRequest c' (page_r env) req [] ?n) =
        Inr \<lparr>body = errorMessage e, headers = [],
             status = (case e of JsError m st \<Rightarrow> status_or_500 st | NonError st \<Rightarrow> status_or_500 st | Nullish \<Rightarrow> 500),
             statusText = ''Request Failed'', attempts = ?n + 1,
             failedAttempts = [\<lparr>error = ?msg e, timestamp = now ?s\<rparr>]\<rparr>"
      using fin failedResponse_Inr [OF nn] rec by simp
    show "\<exists>evs. fetch c env req =
         (c', evs,
          Inr \<lparr>body = ?msg e, headers = [], status = ?st e, statusText = ''Request Failed'',
               attempts = ?n + 1,
               failedAttempts = [\<lparr>error = ?msg e, timestamp = now ?s\<rparr>]\<rparr>)"
      unfolding fetch_started [OF startup] res
      by (cases e) (auto simp: errorMessage_def status_or_500_def split: option.splits)
  qed
  have reached: "newPage_r ?s = None \<and> (\<exists>es rc. pageSession c' ?s req = (es, Inr rc))
      \<longrightarrow> e = JsError (invalidStatusMessage c' 500) (Some 500)
          \<and> (\<exists>evs r. fetch c env req = (c', evs, Inr r) \<and> status r = 500
                \<and> length (failedAttempts r) = 1)"
  proof
    assume r: "newPage_r ?s = None \<and> (\<exists>es rc. pageSession c' ?s req = (es, Inr rc))"
    then obtain es rc where ps: "pageSession c' ?s req = (es, Inr rc)" by blast
    from pageSession_Inr [OF ps] have g: "goto_r ?s = Inr (fst rc)" by blast
    have ps': "pageSession c' ?s req = (es, Inr (fst rc, snd rc))" using ps by simp
    have "fst rc = None \<or> (\<exists>resp. fst rc = Some resp \<and> nav_status resp = None)"
      using nav g by auto
    from tryBlock_invalid_status [OF b _ ps' this] r e
    have ee: "e = JsError (invalidStatusMessage c' 500) (Some 500)" by simp
    then have "e \<noteq> Nullish" by simp
    with general ee show "e = JsError (invalidStatusMessage c' 500) (Some 500)
          \<and> (\<exists>evs r. fetch c env req = (c', evs, Inr r) \<and> status r = 500
                \<and> length (failedAttempts r) = 1)"
      by auto
  qed
  show "\<exists>e. attemptError c' ?s req = Some e
            \<and> (e \<noteq> Nullish \<longrightarrow>
                 (\<exists>evs. fetch c env req =
                    (c', evs,
                     Inr \<lparr>body = ?msg e, headers = [], status = ?st e,
                          statusText = ''Request Failed'',
                          attempts = retriesOf req + 1,
                          failedAttempts = [\<lparr>error = ?msg e, timestamp = now ?s\<rparr>]\<rparr>)))
            \<and> (newPage_r ?s = None
                \<and> (\<exists>es rc. pageSession c' ?s req = (es, Inr rc))
                \<longrightarrow> e = JsError (invalidStatusMessage c' 500) (Some 500)
                    \<and> (\<exists>evs r. fetch c env req = (c', evs, Inr r)
                          \<and> status r = 500
                          \<and> length (failedAttempts r) = 1))"
    apply (rule exI [of _ e])
    apply (intro conjI)
      apply (rule e)
     apply (rule general)
    apply (rule reached)
    done
qed

lemmas eval_defs = fetch_def attemptRequest.simps attemptError_def failureRecord_def
  engine_defs catch_defs lifecycle_defs example_defs

theorem fetch_exhausted_retries_witness:
  "ensureBrowser ex_client (connect_r env_always_fails) = (ex_started, [Connect [] None], None)
   \<and> attemptError ex_started (page_r env_always_fails 2) (ex_request\<lparr>maxRetries := Some 2\<rparr>)
       = Some (JsError ''net::ERR_CONNECTION_REFUSED'' None)
   \<and> (\<exists>evs r. fetch ex_client env_always_fails (ex_request\<lparr>maxRetries := Some 2\<rparr>)
                 = (ex_started, evs, Inr r)
         \<and> attempts r = 3 \<and> length (failedAttempts r) = 3 \<and> status r = 500
         \<and> statusText r = ''Request Failed'' \<and> body r = ''net::ERR_CONNECTION_REFUSED'')"
proof -
  let ?req = "ex_request\<lparr>maxRetries := Some 2\<rparr>"
  have h1: "ensureBrowser ex_client (connect_r env_always_fails)
              = (ex_started, [Connect [] None], None)"
    by (simp add: lifecycle_defs example_defs truthy_def)
  have h2: "retriesOf ?req = 0" by (simp add: catch_defs example_defs)
  have h3: "0 \<le> maxRetriesOf ?req" by (simp add: catch_defs example_defs)
  have h4: "\<forall>k. 0 \<le> k \<and> k \<le> maxRetriesOf ?req \<longrightarrow>
              attemptError ex_started (page_r env_always_fails k) ?req \<noteq> None"
    by (simp add: attemptError_def engine_defs example_defs)
  have h5: "attemptError ex_started (page_r env_always_fails (maxRetriesOf ?req)) ?req
              = Some (JsError ''net::ERR_CONNECTION_REFUSED'' None)"
    by (simp add: attemptError_def engine_defs example_defs)
  have h6: "JsError ''net::ERR_CONNECTION_REFUSED'' None \<noteq> Nullish" by simp
  have m: "maxRetriesOf ?req = 2" by (simp add: catch_defs example_defs)
  from fetch_exhausted_retries [OF h1 h2 h3 h4 h5 h6] h1 h5 show ?thesis
    by (auto simp: m)
qed

theorem fetch_exhausted_retries_counterexample:
  "maxRetriesOf (ex_request\<lparr>maxRetries := Some (- 1)\<rparr>) + 1 = 0
   \<and> retriesOf (ex_request\<lparr>maxRetries := Some (- 1)\<rparr>) = 0
   \<and> attemptError ex_started (page_r env_status_zero 0) (ex_request\<lparr>maxRetries := Some (- 1)\<rparr>)
       = Some (JsError ''Invalid status code'' (Some 0))
   \<and> snd (snd (fetch ex_started env_status_zero (ex_request\<lparr>maxRetries := Some (- 1)\<rparr>)))
       = Inr \<lparr>body = ''Invalid status code'', headers = [], status = 500,
              statusText = ''Request Failed'', attempts = 1,
              failedAttempts = [\<lparr>error = ''Invalid status code'', timestamp = 0\<rparr>]\<rparr>
   \<and> attemptError ex_started (page_r env_throws_null 0) ex_request = Some Nullish
   \<and> snd (snd (fetch ex_started env_throws_null ex_request)) = Inl typeError"
  by (simp add: eval_defs)

theorem fetch_success_path_witness:
  "ensureBrowser ex_client (connect_r env_third_succeeds) = (ex_started, [Connect [] None], None)
   \<and> attemptError ex_started (page_r env_third_succeeds 0) (ex_request\<lparr>maxRetries := Some 2\<rparr>)
       = Some (JsError ''net::ERR_CONNECTION_REFUSED'' None)
   \<and> attemptError ex_started (page_r env_third_succeeds 1) (ex_request\<lparr>maxRetries := Some 2\<rparr>)
       = Some (JsError ''net::ERR_CONNECTION_REFUSED'' None)
   \<and> attemptError ex_started (page_r env_third_succeeds 2) (ex_request\<lparr>maxRetries := Some 2\<rparr>)
       = None
   \<and> (\<exists>evs r. fetch ex_client env_third_succeeds (ex_request\<lparr>maxRetries := Some 2\<rparr>)
                 = (ex_started, evs, Inr r)
         \<and> status r = 200 \<and> attempts r = 3 \<and> length (failedAttempts r) = 2
         \<and> failedAttempts r =
             [\<lparr>error = ''net::ERR_CONNECTION_REFUSED'', timestamp = 0\<rparr>,
              \<lparr>error = ''net::ERR_CONNECTION_REFUSED'', timestamp = 1\<rparr>])"
proof -
  let ?req = "ex_request\<lparr>maxRetries := Some 2\<rparr>"
  have h1: "ensureBrowser ex_client (connect_r env_third_succeeds)
              = (ex_started, [Connect [] None], None)"
    by (simp add: lifecycle_defs example_defs truthy_def)
  have h2: "retriesOf ?req = 0" by (simp add: catch_defs example_defs)
  have h3: "(0::int) \<le> 2" by simp
  have e0: "attemptError ex_started (page_r env_third_succeeds 0) ?req
              = Some (JsError ''net::ERR_CONNECTION_REFUSED'' None)"
    by (simp add: attemptError_def engine_defs example_defs)
  have e1: "attemptError ex_started (page_r env_third_succeeds 1) ?req
              = Some (JsError ''net::ERR_CONNECTION_REFUSED'' None)"
    by (simp add: attemptError_def engine_defs example_defs)
  have h4: "\<forall>k. 0 \<le> k \<and> k < 2 \<longrightarrow>
              attemptError ex_started (page_r env_third_succeeds k) ?req \<noteq> None
              \<and> k < maxRetriesOf ?req"
    by (simp add: attemptError_def engine_defs catch_defs example_defs)
  have h5: "attemptError ex_started (page_r env_third_succeeds 2) ?req = None"
    by (simp add: attemptError_def engine_defs example_defs)
  have f: "[0..(1::int)] = [0, 1]" by (simp add: upto_rec1)
  have m: "maxRetriesOf ?req = 2" by (simp add: catch_defs example_defs)
  have g: "goto_r (page_r env_third_succeeds 2) =
             Inr (Some \<lparr>nav_status = Some 200, nav_headers = [], nav_statusText = ''OK''\<rparr>)"
    by (simp add: example_defs)
  from fetch_success_path [OF h1 h2 h3 h4 h5] h1 e0 e1 h5 show ?thesis
    by (auto simp: f m g failureRecord_def errorMessage_def example_defs)
qed

theorem undefined_status_is_failure_witness:
  "goto_r (page_r env_no_response 0) = Inr None
   \<and> attemptError (ex_started\<lparr>isSuccess := (\<lambda>st. True)\<rparr>) (page_r env_no_response 0) ex_request
       \<noteq> None
   \<and> ensureBrowser ex_client (connect_r env_no_response) = (ex_started, [Connect [] None], None)
   \<and> maxRetriesOf ex_request = 0 \<and> retriesOf ex_request = 0
   \<and> attemptError ex_started (page_r env_no_response 0) ex_request
       = Some (JsError ''Invalid status code'' (Some 500))
   \<and> (\<exists>evs. fetch ex_client env_no_response ex_request =
         (ex_started, evs,
          Inr \<lparr>body = ''Invalid status code'', headers = [], status = 500,
               statusText = ''Request Failed'', attempts = 1,
               failedAttempts = [\<lparr>error = ''Invalid status code'', timestamp = 0\<rparr>]\<rparr>))"
proof -
  have h1: "ensureBrowser ex_client (connect_r env_no_response)
              = (ex_started, [Connect [] None], None)"
    by (simp add: lifecycle_defs example_defs truthy_def)
  have h2: "maxRetriesOf ex_request = 0" "retriesOf ex_request = 0"
    by (simp_all add: catch_defs example_defs)
  have h5: "goto_r (page_r env_no_response 0) = Inr None"
    by (simp add: example_defs)
  have e: "attemptError ex_started (page_r env_no_response 0) ex_request
             = Some (JsError ''Invalid status code'' (Some 500))"
    by (simp add: attemptError_def engine_defs example_defs)
  have t: "now (page_r env_no_response 0) = 0" by (simp add: example_defs)
  from undefined_status_is_failure
         [where s = "page_r env_no_response 0" and ?c0.0 = ex_started and p = "\<lambda>st. True"
            and ?req0.0 = ex_request and c = ex_client and env = env_no_response
            and c' = ex_started and ?evs0.0 = "[Connect [] None]" and req = ex_request]
       h1 h2 h5 e t
  show ?thesis by auto
qed

theorem undefined_status_is_failure_counterexample:
  "goto_r (page_r env_after_action_throws 0) = Inr None
   \<and> maxRetriesOf (ex_request\<lparr>actions := Some [Fn 1]\<rparr>) = 0
   \<and> snd (snd (fetch ex_started env_after_action_throws (ex_request\<lparr>actions := Some [Fn 1]\<rparr>)))
       = Inr \<lparr>body = ''I am a teapot'', headers = [], status = 418,
              statusText = ''Request Failed'', attempts = 1,
              failedAttempts = [\<lparr>error = ''I am a teapot'', timestamp = 0\<rparr>]\<rparr>
   \<and> goto_r (page_r env_no_response (- 1)) = Inr None
   \<and> goto_r (page_r env_no_response 0) = Inr None
   \<and> maxRetriesOf (ex_request\<lparr>retries := Some (- 1)\<rparr>) = 0
   \<and> snd (snd (fetch ex_started env_no_response (ex_request\<lparr>retries := Some (- 1)\<rparr>)))
       = Inr \<lparr>body = ''Invalid status code'', headers = [], status = 500,
              statusText = ''Request Failed'', attempts = 1,
              failedAttempts =
                [\<lparr>error = ''Invalid status code'', timestamp = 0\<rparr>,
                 \<lparr>error = ''Invalid status code'', timestamp = 0\<rparr>]\<rparr>
   \<and> goto_r (page_r env_after_action_throws_null 0) = Inr None
   \<and> attemptError ex_started (page_r env_after_action_throws_null 0)
         (ex_request\<lparr>actions := Some [Fn 1]\<rparr>) = Some Nullish
   \<and> snd (snd (fetch ex_started env_after_action_throws_null
                   (ex_request\<lparr>actions := Some [Fn 1]\<rparr>))) = Inl typeError"
  by (simp add: eval_defs defaultPuppeteerActionType_def actionType_def actionFunc_def)

theorem fetch_failures_encoded_witness:
  "ensureBrowser ex_client (connect_r env_null_then_error) = (ex_started, [Connect [] None], None)
   \<and> attemptError ex_started (page_r env_null_then_error 0) (ex_request\<lparr>maxRetries := Some 1\<rparr>)
       = Some Nullish
   \<and> attemptError ex_started (page_r env_null_then_error 1) (ex_request\<lparr>maxRetries := Some 1\<rparr>)
       = Some (JsError ''net::ERR_CONNECTION_REFUSED'' None)
   \<and> (\<exists>evs. fetch ex_client env_null_then_error (ex_request\<lparr>maxRetries := Some 1\<rparr>) =
         (ex_started, evs,
          Inr \<lparr>body = ''net::ERR_CONNECTION_REFUSED'', headers = [], status = 500,
               statusText = ''Request Failed'', attempts = 2,
               failedAttempts =
                 [\<lparr>error = ''Unknown error'', timestamp = 0\<rparr>,
                  \<lparr>error = ''net::ERR_CONNECTION_REFUSED'', timestamp = 1\<rparr>]\<rparr>))"
proof -
  let ?req = "ex_request\<lparr>maxRetries := Some 1\<rparr>"
  let ?env = env_null_then_error
  have h1: "ensureBrowser ex_client (connect_r ?env) = (ex_started, [Connect [] None], None)"
    by (simp add: lifecycle_defs example_defs truthy_def)
  have r: "retriesOf ?req = 0" and m: "maxRetriesOf ?req = 1"
    by (simp_all add: catch_defs example_defs)
  have e0: "attemptError ex_started (page_r ?env 0) ?req = Some Nullish"
    by (simp add: attemptError_def engine_defs example_defs)
  have ek: "\<And>k. k \<noteq> 0 \<Longrightarrow> attemptError ex_started (page_r ?env k) ?req
                = Some (JsError ''net::ERR_CONNECTION_REFUSED'' None)"
    by (simp add: attemptError_def engine_defs example_defs)
  have rec0: "failureRecord ex_started (page_r ?env 0) ?req = \<lparr>error = ''Unknown error'', timestamp = 0\<rparr>"
    by (simp add: failureRecord_def e0 errorMessage_def) (simp add: example_defs)
  have rec1: "failureRecord ex_started (page_r ?env 1) ?req
                = \<lparr>error = ''net::ERR_CONNECTION_REFUSED'', timestamp = 1\<rparr>"
    by (simp add: failureRecord_def ek errorMessage_def) (simp add: example_defs)
  have f: "[0..(1::int)] = [0, 1]" by (simp add: upto_rec1)
  from fetch_failures_encoded [OF h1, of ?req] obtain j where
    j: "0 \<le> j"
    and before: "\<forall>k. 0 \<le> k \<and> k < j \<longrightarrow> k < 1"
    and ko: "\<forall>e. attemptError ex_started (page_r ?env j) ?req = Some e \<longrightarrow>
               \<not> j < 1
               \<and> (e \<noteq> Nullish \<longrightarrow>
                    (\<exists>evs. fetch ex_client ?env ?req =
                       (ex_started, evs,
                        Inr \<lparr>body =
                               (case e of JsError m code \<Rightarrow> m
                                | NonError code \<Rightarrow> ''Unknown error''
                                | Nullish \<Rightarrow> ''Unknown error''),
                             headers = [],
                             status =
                               (case e of
                                  JsError m None \<Rightarrow> 500
                                | JsError m (Some code) \<Rightarrow> if code = 0 then 500 else code
                                | NonError None \<Rightarrow> 500
                                | NonError (Some code) \<Rightarrow> if code = 0 then 500 else code
                                | Nullish \<Rightarrow> 500),
                             statusText = ''Request Failed'',
                             attempts = j + 1,
                             failedAttempts =
                               map (\<lambda>k. failureRecord ex_started (page_r ?env k) ?req) [0..j]\<rparr>)))"
    unfolding r m by blast
  have j1: "1 \<le> j"
  proof (cases "j = 0")
    case True
    with ko e0 show ?thesis by simp
  next
    case False
    with j show ?thesis by simp
  qed
  have "\<not> 1 < j" using before [THEN spec, of 1] by auto
  with j1 have "j = 1" by simp
  with ko ek [of 1] have
    "\<exists>evs. fetch ex_client ?env ?req =
       (ex_started, evs,
        Inr \<lparr>body = ''net::ERR_CONNECTION_REFUSED'', headers = [], status = 500,
             statusText = ''Request Failed'', attempts = 2,
             failedAttempts =
               [\<lparr>error = ''Unknown error'', timestamp = 0\<rparr>,
                \<lparr>error = ''net::ERR_CONNECTION_REFUSED'', timestamp = 1\<rparr>]\<rparr>)"
    by (simp add: f rec0 rec1)
  with h1 e0 ek [of 1] show ?thesis by simp
qed

theorem fetch_failures_encoded_counterexample:
  "fetch ex_client env_connect_fails ex_request =
     (ex_client, [Connect [] None], Inl (JsError ''Failed to launch the browser process'' None))
   \<and> snd (snd (fetch ex_started env_throws_null ex_request)) = Inl typeError"
  by (simp add: eval_defs)


section \<open>Closing the page\<close>

lemma executeActions_close_r [simp]:
  "executeActions (s\<lparr>close_r := x\<rparr>) as = executeActions s as"
  by (induction as) simp_all

lemma pageSession_close_fails:
  assumes "pageSession c (s\<lparr>close_r := None\<rparr>) req = (es, Inr rc)" and "close_r s = Some t"
  shows "pageSession c s req = (es, Inl t)"
  using assms
  by (auto simp: pageSession_def configurePage_def andThen_def await_unit_def await_val_def
        done_with_def split: prod.splits sum.splits option.splits if_splits)

lemma tryBlock_events:
  "fst (snd (tryBlock c s req fa n)) = fst (snd (tryBlock c s req [] 0))"
  and tryBlock_page: "fst (tryBlock c s req fa n) = fst (tryBlock c s req [] 0)"
  by (subst tryBlock_stamp, simp add: map_step_def)+

lemma attemptRequest_events:
  "fst (attemptRequest c env req fa n) =
     attemptTrace c (env n) req @
       (if attemptError c (env n) req \<noteq> None \<and> n < maxRetriesOf req
        then delayEvents req @
               fst (attemptRequest c env req (fa @ [failureRecord c (env n) req]) (n + 1))
        else [])"
proof -
  obtain p evs r where t: "tryBlock c (env n) req fa n = (p, evs, r)"
    by (cases "tryBlock c (env n) req fa n") auto
  obtain p0 evs0 r0 where t0: "tryBlock c (env n) req [] 0 = (p0, evs0, r0)"
    by (cases "tryBlock c (env n) req [] 0") auto
  have pe: "p0 = p" "evs0 = evs"
    using tryBlock_events [of c "env n" req fa n] tryBlock_page [of c "env n" req fa n] t t0
    by simp_all
  have res: "r = (case attemptError c (env n) req of
        Some e \<Rightarrow> Inl e
      | None \<Rightarrow> Inr (stamp fa n (projr (snd (snd (tryBlock c (env n) req [] 0))))))"
    using tryBlock_result [of c "env n" req fa n] t by simp
  have r0: "(case r0 of Inl e \<Rightarrow> Some e | Inr x \<Rightarrow> None) = attemptError c (env n) req"
    using t0 by (simp add: attemptError_def)
  show ?thesis
  proof (cases "attemptError c (env n) req")
    case None
    with res r0 show ?thesis
      by (subst attemptRequest.simps)
         (auto simp: t t0 pe attemptTrace_def split: sum.splits)
  next
    case (Some e)
    with res r0 show ?thesis
      by (subst attemptRequest.simps)
         (auto simp: t t0 pe attemptTrace_def failureRecord_def Let_def
            split: sum.splits prod.splits)
  qed
qed

lemma attemptTrace_ends_with_close:
  assumes "browser c = Some b" and "newPage_r s = None"
  shows "attemptTrace c s req \<noteq> [] \<and> hd (attemptTrace c s req) = NewPage b
           \<and> last (attemptTrace c s req) = PageClose"
proof -
  obtain es r where a: "andThen (pageSession c s req) (classify c [] 0) = (es, r)"
    by (cases "andThen (pageSession c s req) (classify c [] 0)") auto
  have t: "tryBlock c s req [] 0 = (True, NewPage b # es, r)"
    using assms a by (simp add: tryBlock_def andThen_def)
  show ?thesis
  proof (cases r)
    case (Inl e)
    with t show ?thesis by (simp add: attemptTrace_def)
  next
    case (Inr x)
    with a obtain e1 rc e2 where ps: "pageSession c s req = (e1, Inr rc)"
      and cl: "classify c [] 0 rc = (e2, Inr x)" and es: "es = e1 @ e2"
      by (auto dest!: andThen_Inr)
    from cl have "classify c [] 0 (fst rc, snd rc) = (e2, Inr x)" by simp
    from classify_Inr [OF this] have "e2 = []" by blast
    with pageSession_Inr [OF ps] es have "es \<noteq> []" "last es = PageClose" by auto
    with t Inr show ?thesis by (simp add: attemptTrace_def)
  qed
qed

lemma tryBlock_close_fails:
  assumes "browser c = Some b" and "newPage_r s = None"
    and "pageSession c (s\<lparr>close_r := None\<rparr>) req = (es, Inr rc)" and "close_r s = Some t"
  shows "attemptError c s req = Some t"
  using assms(1,2) pageSession_close_fails [OF assms(3,4)]
  by (simp add: attemptError_def tryBlock_def andThen_def)

text \<open>
  A failure of the \<^verbatim>\<open>page.close()\<close> that follows the content read is a failure of the attempt:
  that call stands inside the \<^verbatim>\<open>try\<close> block and has no handler of its own.
\<close>

lemma close_failure_fails_attempt:
  assumes "browser c = Some b" and "newPage_r (env n) = None"
    and "pageSession c ((env n)\<lparr>close_r := None\<rparr>) req = (es, Inr rc)"
    and "close_r (env n) = Some t"
  shows "snd (attemptRequest c env req fa n) =
           (if n < maxRetriesOf req
            then snd (attemptRequest c env req
                        (fa @ [\<lparr>error = errorMessage t, timestamp = now (env n)\<rparr>]) (n + 1))
            else failedResponse t (fa @ [\<lparr>error = errorMessage t, timestamp = now (env n)\<rparr>]) n)"
proof -
  have e: "attemptError c (env n) req = Some t"
    using tryBlock_close_fails [OF assms] .
  show ?thesis
    using attemptRequest_retry [of c env n req t fa] attemptRequest_final [of c env n req t fa] e
    by (simp add: failureRecord_def)
qed

text \<open>
  C2. The code at an input where the \<^verbatim>\<open>page.close()\<close> that follows the content read (line 152)
  throws: a started client, a first attempt in which the page is created, the navigation
  answers 200 and the content is read, and whose \<^verbatim>\<open>page.close()\<close> throws; later attempts in
  which nothing throws. Had the close not thrown, \<^verbatim>\<open>fetch\<close> would return status 200 with
  \<^verbatim>\<open>attempts = 1\<close> and no failed-attempt record. As the code stands, the close failure is
  handled as a failure of the attempt: with \<^verbatim>\<open>maxRetries = 1\<close> a failed-attempt record is added
  and the request is made a second time (\<^verbatim>\<open>attempts = 2\<close>); with \<^verbatim>\<open>maxRetries = 0\<close> the answer is
  status 500, \<^verbatim>\<open>Request Failed\<close>, and the content that was read is lost.
\<close>

theorem step6_close_failure_changes_outcome:
  "newPage_r (page_r env_close_fails_once 0) = None
   \<and> close_r (page_r env_close_fails_once 0) = Some (JsError ''Protocol error: Target closed'' None)
   \<and> pageSession ex_started ((page_r env_close_fails_once 0)\<lparr>close_r := None\<rparr>) ex_request
       = ([Goto ''https://example.com'', Content, PageClose],
          Inr (Some \<lparr>nav_status = Some 200, nav_headers = [], nav_statusText = ''OK''\<rparr>,
               ''<html></html>''))
   \<and> fetch ex_started
         (env_close_fails_once\<lparr>page_r := (\<lambda>k. (page_r env_close_fails_once k)\<lparr>close_r := None\<rparr>)\<rparr>)
         (ex_request\<lparr>maxRetries := Some 1\<rparr>) =
     (ex_started,
      [NewPage 7, Goto ''https://example.com'', Content, PageClose],
      Inr \<lparr>body = ''<html></html>'', headers = [], status = 200, statusText = ''OK'',
           attempts = 1, failedAttempts = []\<rparr>)
   \<and> fetch ex_started env_close_fails_once (ex_request\<lparr>maxRetries := Some 1\<rparr>) =
     (ex_started,
      [NewPage 7, Goto ''https://example.com'', Content, PageClose, PageClose,
       NewPage 7, Goto ''https://example.com'', Content, PageClose],
      Inr \<lparr>body = ''<html></html>'', headers = [], status = 200, statusText = ''OK'',
           attempts = 2,
           failedAttempts = [\<lparr>error = ''Protocol error: Target closed'', timestamp = 0\<rparr>]\<rparr>)
   \<and> fetch ex_started env_close_fails_once ex_request =
     (ex_started,
      [NewPage 7, Goto ''https://example.com'', Content, PageClose, PageClose],
      Inr \<lparr>body = ''Protocol error: Target closed'', headers = [], status = 500,
           statusText = ''Request Failed'', attempts = 1,
           failedAttempts = [\<lparr>error = ''Protocol error: Target closed'', timestamp = 0\<rparr>]\<rparr>)"
  by (simp add: eval_defs)


section \<open>The browser handle\<close>

lemma one_browser_step:
  assumes "one_browser s"
    and "case a of CallEnsureBrowser \<Rightarrow> awaiting s = 0 | ConnectSettles r \<Rightarrow> True | CallClose r \<Rightarrow> True"
  shows "one_browser (sys_step s a)"
  using assms
  by (cases a)
     (auto simp: one_browser_def sys_step_def initBrowser_resume_def close_def closeBrowser_def
        split: option.splits sum.splits if_splits)

lemma one_browser_run:
  assumes "one_browser s" and "non_overlapping s sch"
  shows "one_browser (run s sch)"
  using assms
proof (induction sch arbitrary: s)
  case Nil
  then show ?case by (simp add: run_def)
next
  case (Cons a sch)
  then have "one_browser (sys_step s a)" by (simp add: one_browser_step)
  with Cons show ?case by (simp add: run_def)
qed

lemma one_browser_sys_of: "one_browser (sys_of c)"
  by (simp add: one_browser_def sys_of_def split: option.splits)

lemma non_overlapping_append:
  "non_overlapping s (sch @ sch') = (non_overlapping s sch \<and> non_overlapping (run s sch) sch')"
  by (induction sch arbitrary: s) (simp_all add: run_def)

lemma run_snoc: "run s (sch @ [a]) = sys_step (run s sch) a"
  by (simp add: run_def)

lemma handle_step:
  assumes "one_browser s" and "browser (sys_client s) = Some b"
  shows "browser (sys_client (sys_step s a)) = Some b
         \<or> (a = CallClose None \<and> browser (sys_client (sys_step s a)) = None)"
  using assms
  by (cases a)
     (auto simp: one_browser_def sys_step_def close_def closeBrowser_def
        split: option.splits sum.splits if_splits)

lemma fetch_client: "fst (fetch c env req) = fst (ensureBrowser c (connect_r env))"
  by (cases "ensureBrowser c (connect_r env)")
     (auto simp: fetch_def split: option.splits prod.splits)

text \<open>
  C7, as amended. As long as no \<^verbatim>\<open>ensureBrowser\<close> call starts while another one is suspended
  in \<^verbatim>\<open>connect\<close>, at every moment the engine runs at most one browser, and it is the one the
  client stores; a stored handle is never replaced by another one: it stays, or a \<^verbatim>\<open>close\<close>
  whose \<^verbatim>\<open>browser.close()\<close> completes clears it. \<^verbatim>\<open>ensureBrowser\<close> with a stored handle does
  nothing and calls nothing; without one it calls \<^verbatim>\<open>connect\<close> and stores the browser it gets,
  or rejects and stores nothing. \<^verbatim>\<open>fetch\<close> changes the client through \<^verbatim>\<open>ensureBrowser\<close> only.
\<close>

theorem single_browser_handle:
  "(non_overlapping (sys_of c) sch \<longrightarrow>
      length (live (run (sys_of c) sch)) \<le> 1
      \<and> live (run (sys_of c) sch) =
          (case browser (sys_client (run (sys_of c) sch)) of None \<Rightarrow> [] | Some b \<Rightarrow> [b]))
   \<and> (non_overlapping (sys_of c) (sch @ [a]) \<and> browser (sys_client (run (sys_of c) sch)) = Some b
        \<longrightarrow> browser (sys_client (run (sys_of c) (sch @ [a]))) = Some b
          \<or> (a = CallClose None \<and> browser (sys_client (run (sys_of c) (sch @ [a]))) = None))
   \<and> (browser c \<noteq> None \<longrightarrow> ensureBrowser c r = (c, [], None))
   \<and> (browser c = None \<longrightarrow>
        ensureBrowser c (Inr h) = (c\<lparr>browser := Some h\<rparr>, [initBrowser_call c], None)
        \<and> ensureBrowser c (Inl t) = (c, [initBrowser_call c], Some t))
   \<and> sys_client (run (sys_of c) [CallEnsureBrowser, ConnectSettles r]) = fst (ensureBrowser c r)
   \<and> fst (fetch c env req) = fst (ensureBrowser c (connect_r env))"
proof (intro conjI impI)
  assume n: "non_overlapping (sys_of c) sch"
  have "one_browser (run (sys_of c) sch)"
    using one_browser_run [OF one_browser_sys_of n] .
  then show "live (run (sys_of c) sch) =
          (case browser (sys_client (run (sys_of c) sch)) of None \<Rightarrow> [] | Some b \<Rightarrow> [b])"
    and "length (live (run (sys_of c) sch)) \<le> 1"
    by (auto simp: one_browser_def split: option.splits)
next
  assume a: "non_overlapping (sys_of c) (sch @ [a]) \<and> browser (sys_client (run (sys_of c) sch)) = Some b"
  then have "one_browser (run (sys_of c) sch)"
    using one_browser_run [OF one_browser_sys_of, of c sch] by (simp add: non_overlapping_append)
  from handle_step [OF this, of b a] a
  show "browser (sys_client (run (sys_of c) (sch @ [a]))) = Some b
          \<or> (a = CallClose None \<and> browser (sys_client (run (sys_of c) (sch @ [a]))) = None)"
    by (simp add: run_snoc)
next
  assume "browser c \<noteq> None"
  then show "ensureBrowser c r = (c, [], None)" by (auto simp: ensureBrowser_def)
next
  assume "browser c = None"
  then show "ensureBrowser c (Inr h) = (c\<lparr>browser := Some h\<rparr>, [initBrowser_call c], None)"
    and "ensureBrowser c (Inl t) = (c, [initBrowser_call c], Some t)"
    by (simp_all add: ensureBrowser_def initBrowser_def initBrowser_resume_def)
next
  show "sys_client (run (sys_of c) [CallEnsureBrowser, ConnectSettles r]) = fst (ensureBrowser c r)"
    by (simp add: run_def sys_step_def sys_of_def ensureBrowser_def initBrowser_def
          split: prod.splits)
next
  show "fst (fetch c env req) = fst (ensureBrowser c (connect_r env))"
    by (rule fetch_client)
qed

theorem single_browser_handle_witness:
  "non_overlapping (sys_of ex_client)
     [CallEnsureBrowser, ConnectSettles (Inr 1), CallEnsureBrowser, CallClose None,
      CallEnsureBrowser, ConnectSettles (Inr 2)]
   \<and> live (run (sys_of ex_client)
        [CallEnsureBrowser, ConnectSettles (Inr 1), CallEnsureBrowser, CallClose None,
         CallEnsureBrowser, ConnectSettles (Inr 2)]) = [2]
   \<and> browser (sys_client (run (sys_of ex_client)
        [CallEnsureBrowser, ConnectSettles (Inr 1), CallEnsureBrowser])) = Some 1
   \<and> browser (sys_client (run (sys_of ex_client)
        ([CallEnsureBrowser, ConnectSettles (Inr 1), CallEnsureBrowser] @ [CallClose None]))) = None
   \<and> ensureBrowser ex_started (Inr 9) = (ex_started, [], None)"
proof -
  let ?sch = "[CallEnsureBrowser, ConnectSettles (Inr 1), CallEnsureBrowser, CallClose None,
      CallEnsureBrowser, ConnectSettles (Inr 2)]"
  have h1: "non_overlapping (sys_of ex_client) ?sch"
    by (simp add: sys_of_def sys_step_def lifecycle_defs example_defs)
  have h2: "non_overlapping (sys_of ex_client)
       ([CallEnsureBrowser, ConnectSettles (Inr 1), CallEnsureBrowser] @ [CallClose None])"
    by (simp add: sys_of_def sys_step_def lifecycle_defs example_defs)
  have h3: "browser (sys_client (run (sys_of ex_client)
        [CallEnsureBrowser, ConnectSettles (Inr 1), CallEnsureBrowser])) = Some 1"
    by (simp add: run_def sys_of_def sys_step_def lifecycle_defs example_defs)
  have h4: "browser ex_started \<noteq> None" by (simp add: example_defs)
  have v: "browser (sys_client (run (sys_of ex_client) ?sch)) = Some 2"
    by (simp add: run_def sys_of_def sys_step_def lifecycle_defs example_defs)
  have w: "CallClose None \<noteq> CallEnsureBrowser" by simp
  from single_browser_handle
         [where c = ex_client and sch = ?sch] h1 v
  have a: "live (run (sys_of ex_client) ?sch) = [2]" by simp
  from single_browser_handle
         [where c = ex_client and sch = "[CallEnsureBrowser, ConnectSettles (Inr 1), CallEnsureBrowser]"
            and a = "CallClose None" and b = 1] h2 h3
  have b: "browser (sys_client (run (sys_of ex_client)
        ([CallEnsureBrowser, ConnectSettles (Inr 1), CallEnsureBrowser] @ [CallClose None]))) = None"
    by (simp add: run_def sys_of_def sys_step_def lifecycle_defs example_defs)
  from single_browser_handle [where c = ex_started and r = "Inr 9"] h4
  have c: "ensureBrowser ex_started (Inr 9) = (ex_started, [], None)" by simp
  from h1 a h3 b c show ?thesis by simp
qed

theorem single_browser_handle_counterexample:
  "live (run (sys_of ex_client)
     [CallEnsureBrowser, CallEnsureBrowser, ConnectSettles (Inr 1), ConnectSettles (Inr 2)]) = [2, 1]
   \<and> sys_events (run (sys_of ex_client)
     [CallEnsureBrowser, CallEnsureBrowser, ConnectSettles (Inr 1), ConnectSettles (Inr 2)])
       = [Connect [] None, Connect [] None]
   \<and> browser (sys_client (run (sys_of ex_client)
     [CallEnsureBrowser, CallEnsureBrowser, ConnectSettles (Inr 1)])) = Some 1
   \<and> browser (sys_client (run (sys_of ex_client)
     [CallEnsureBrowser, CallEnsureBrowser, ConnectSettles (Inr 1), ConnectSettles (Inr 2)])) = Some 2"
  by (simp add: run_def sys_of_def sys_step_def lifecycle_defs example_defs truthy_def)

text \<open>
  C8, as amended. When the client stores no browser, or \<^verbatim>\<open>browser.close()\<close> does not throw,
  \<^verbatim>\<open>close\<close> returns without error and leaves no handle, and a second \<^verbatim>\<open>close\<close> right after it
  returns without error, leaves no handle and calls nothing. \<^verbatim>\<open>close\<close> without a stored
  handle is a no-op. With a stored handle, \<^verbatim>\<open>close\<close> calls \<^verbatim>\<open>browser.close()\<close> once; if that
  throws, \<^verbatim>\<open>close\<close> rejects with the same value and the handle stays. \<^verbatim>\<open>closeBrowser\<close> behaves
  as \<^verbatim>\<open>close\<close>.
\<close>

theorem close_twice:
  "(browser c = None \<or> r1 = None \<longrightarrow>
      (\<exists>c1 evs1. close c r1 = (c1, evs1, None) \<and> browser c1 = None
         \<and> close c1 r2 = (c1, [], None)))
   \<and> (browser c = None \<longrightarrow> close c r = (c, [], None))
   \<and> (browser c = Some b \<longrightarrow> close c (Some t) = (c, [BrowserClose b], Some t)
                           \<and> close c None = (c\<lparr>browser := None\<rparr>, [BrowserClose b], None))
   \<and> closeBrowser c r = close c r"
  by (auto simp: close_def closeBrowser_def split: option.splits)

theorem close_twice_witness:
  "browser ex_started = Some 7
   \<and> close ex_started None = (ex_client, [BrowserClose 7], None)
   \<and> browser ex_client = None
   \<and> close ex_client (Some typeError) = (ex_client, [], None)"
  using close_twice [of ex_started None "Some typeError" None 7 typeError]
    close_twice [of ex_client None "Some typeError" "Some typeError"]
  by (simp add: example_defs)

theorem close_twice_counterexample:
  "close ex_started (Some (JsError ''Protocol error: Connection closed'' None)) =
     (ex_started, [BrowserClose 7], Some (JsError ''Protocol error: Connection closed'' None))
   \<and> browser ex_started = Some 7"
  by (simp add: lifecycle_defs example_defs)


section \<open>fetchMany\<close>

lemma length_js_assign: "length (js_assign xs i v) = max (length xs) (Suc i)"
  by (simp add: js_assign_def)

lemma nth_js_assign:
  "k < length (js_assign xs i v) \<Longrightarrow>
   js_assign xs i v ! k = (if k = i then Some v else if k < length xs then xs ! k else None)"
  by (auto simp: js_assign_def nth_append)

lemma nth_js_assign_same: "js_assign xs i v ! i = Some v"
  by (simp add: js_assign_def nth_append)

lemma nth_js_assign_other:
  "k < length xs \<Longrightarrow> k \<noteq> i \<Longrightarrow> js_assign xs i v ! k = xs ! k"
  by (simp add: js_assign_def nth_append)

lemma js_assign_Some_other:
  assumes "k < length (js_assign xs i v)" and "js_assign xs i v ! k = Some x" and "k \<noteq> i"
  shows "k < length xs \<and> xs ! k = Some x"
  using assms by (auto simp: js_assign_def nth_append split: if_splits)

lemma many_inv_init: "many_inv e requests many_init"
  by (simp add: many_inv_def inv_tasks_def inv_pending_def inv_results_def many_init_def)

lemma inv_results_D:
  "inv_results e requests s \<Longrightarrow> i < length (results s) \<Longrightarrow> results s ! i = Some r \<Longrightarrow>
   promises s i = Fulfilled \<and> respond e (requests ! i) i = Inr r"
  unfolding inv_results_def by blast

lemma inv_results_E:
  "inv_results e requests s \<Longrightarrow> promises s j = Fulfilled \<Longrightarrow>
   j < length (results s) \<and> results s ! j \<noteq> None"
  unfolding inv_results_def by blast

lemma inv_results_F:
  "inv_results e requests s \<Longrightarrow> promises s j = RejectedWith t \<Longrightarrow>
   respond e (requests ! j) j = Inl t"
  unfolding inv_results_def by blast

lemma inv_results_len:
  "inv_results e requests s \<Longrightarrow> length (results s) \<le> length (tasks s)"
  unfolding inv_results_def by blast

lemma inv_resultsI:
  assumes "length (results s) \<le> length (tasks s)"
    and "\<And>i r. i < length (results s) \<Longrightarrow> results s ! i = Some r \<Longrightarrow>
           promises s i = Fulfilled \<and> respond e (requests ! i) i = Inr r"
    and "\<And>j. promises s j = Fulfilled \<Longrightarrow> j < length (results s) \<and> results s ! j \<noteq> None"
    and "\<And>j t. promises s j = RejectedWith t \<Longrightarrow> respond e (requests ! j) j = Inl t"
  shows "inv_results e requests s"
  unfolding inv_results_def using assms by blast

lemma pending_no_result:
  assumes "inv_results e requests s" and "promises s j = Pending"
    and "j < length (results s)"
  shows "results s ! j = None"
proof (cases "results s ! j")
  case None
  then show ?thesis .
next
  case (Some x)
  from inv_results_D [OF assms(1,3) Some] assms(2) show ?thesis by simp
qed

lemma inv_results_reject:
  assumes "inv_results e requests s" and "promises s j = Pending"
    and "respond e (requests ! j) j = Inl t"
  shows "inv_results e requests (s\<lparr>promises := (promises s)(j := RejectedWith t)\<rparr>)"
proof (rule inv_resultsI)
  show "length (results (s\<lparr>promises := (promises s)(j := RejectedWith t)\<rparr>))
          \<le> length (tasks (s\<lparr>promises := (promises s)(j := RejectedWith t)\<rparr>))"
    using inv_results_len [OF assms(1)] by simp
next
  fix i r
  assume a: "i < length (results (s\<lparr>promises := (promises s)(j := RejectedWith t)\<rparr>))"
    "results (s\<lparr>promises := (promises s)(j := RejectedWith t)\<rparr>) ! i = Some r"
  then have i: "i < length (results s)" "results s ! i = Some r" by simp_all
  then have "i \<noteq> j" using pending_no_result [OF assms(1,2)] by auto
  with inv_results_D [OF assms(1) i]
  show "promises (s\<lparr>promises := (promises s)(j := RejectedWith t)\<rparr>) i = Fulfilled
          \<and> respond e (requests ! i) i = Inr r"
    by simp
next
  fix k
  assume "promises (s\<lparr>promises := (promises s)(j := RejectedWith t)\<rparr>) k = Fulfilled"
  then have "promises s k = Fulfilled" by (simp split: if_splits)
  from inv_results_E [OF assms(1) this]
  show "k < length (results (s\<lparr>promises := (promises s)(j := RejectedWith t)\<rparr>))
          \<and> results (s\<lparr>promises := (promises s)(j := RejectedWith t)\<rparr>) ! k \<noteq> None"
    by simp
next
  fix k t'
  assume a: "promises (s\<lparr>promises := (promises s)(j := RejectedWith t)\<rparr>) k = RejectedWith t'"
  show "respond e (requests ! k) k = Inl t'"
  proof (cases "k = j")
    case True
    with a assms(3) show ?thesis by simp
  next
    case False
    with a have "promises s k = RejectedWith t'" by simp
    from inv_results_F [OF assms(1) this] show ?thesis .
  qed
qed

lemma inv_results_fulfil:
  assumes "inv_results e requests s" and "promises s j = Pending" and "j < length (tasks s)"
    and "respond e (requests ! j) j = Inr r"
  shows "inv_results e requests
           (s\<lparr>results := js_assign (results s) j r, promises := (promises s)(j := Fulfilled)\<rparr>)"
proof (rule inv_resultsI)
  let ?s' = "s\<lparr>results := js_assign (results s) j r, promises := (promises s)(j := Fulfilled)\<rparr>"
  show "length (results ?s') \<le> length (tasks ?s')"
    using inv_results_len [OF assms(1)] assms(3) by (simp add: length_js_assign)
  {
    fix i x
    assume a: "i < length (results ?s')" "results ?s' ! i = Some x"
    show "promises ?s' i = Fulfilled \<and> respond e (requests ! i) i = Inr x"
    proof (cases "i = j")
      case True
      with a assms(4) show ?thesis by (simp add: nth_js_assign_same)
    next
      case False
      with a have "i < length (results s) \<and> results s ! i = Some x"
        using js_assign_Some_other [of i "results s" j r x] by simp
      with inv_results_D [OF assms(1), of i x] False show ?thesis by simp
    qed
  }
  {
    fix k
    assume a: "promises ?s' k = Fulfilled"
    show "k < length (results ?s') \<and> results ?s' ! k \<noteq> None"
    proof (cases "k = j")
      case True
      then show ?thesis by (simp add: length_js_assign nth_js_assign_same)
    next
      case False
      with a have "promises s k = Fulfilled" by simp
      from inv_results_E [OF assms(1) this] False show ?thesis
        by (auto simp: length_js_assign nth_js_assign_other less_max_iff_disj)
    qed
  }
  {
    fix k t
    assume a: "promises ?s' k = RejectedWith t"
    then have "promises s k = RejectedWith t" by (simp split: if_splits)
    from inv_results_F [OF assms(1) this] show "respond e (requests ! k) k = Inl t" .
  }
qed

lemma many_inv_settle:
  assumes "many_inv e requests s"
  shows "many_inv e requests (executeRequest_settles e s j)"
proof (cases "j < length (tasks s) \<and> promises s j = Pending")
  case False
  with assms show ?thesis by (auto simp: executeRequest_settles_def)
next
  case True
  then have j: "j < length (tasks s)" and p: "promises s j = Pending" by simp_all
  from assms have it: "inv_tasks requests s" and ip: "inv_pending s"
    and ir: "inv_results e requests s"
    by (simp_all add: many_inv_def)
  from it j have tj: "tasks s ! j = (requests ! j, j)"
    by (simp add: inv_tasks_def split: many_phase.splits)
  have unresolved: "\<And>rs. many_phase s \<noteq> Resolved rs"
    using ip j p by (auto simp: inv_pending_def split: many_phase.splits)
  show ?thesis
  proof (cases "respond e (requests ! j) j")
    case (Inl t)
    then have eq: "executeRequest_settles e s j = s\<lparr>promises := (promises s)(j := RejectedWith t)\<rparr>"
      using True tj by (simp add: executeRequest_settles_def)
    have 1: "inv_tasks requests (s\<lparr>promises := (promises s)(j := RejectedWith t)\<rparr>)"
      using it by (simp add: inv_tasks_def split: many_phase.splits)
    have 2: "inv_pending (s\<lparr>promises := (promises s)(j := RejectedWith t)\<rparr>)"
      using ip j unresolved by (cases "many_phase s") (auto simp: inv_pending_def split: many_phase.splits)
    show ?thesis
      unfolding eq many_inv_def using 1 2 inv_results_reject [OF ir p Inl] by simp
  next
    case (Inr r)
    then have eq: "executeRequest_settles e s j =
        s\<lparr>results := js_assign (results s) j r, promises := (promises s)(j := Fulfilled)\<rparr>"
      using True tj by (simp add: executeRequest_settles_def)
    have 1: "inv_tasks requests
               (s\<lparr>results := js_assign (results s) j r, promises := (promises s)(j := Fulfilled)\<rparr>)"
      using it by (simp add: inv_tasks_def split: many_phase.splits)
    have 2: "inv_pending
               (s\<lparr>results := js_assign (results s) j r, promises := (promises s)(j := Fulfilled)\<rparr>)"
      using ip j unresolved by (cases "many_phase s") (auto simp: inv_pending_def split: many_phase.splits)
    show ?thesis
      unfolding eq many_inv_def using 1 2 inv_results_fulfil [OF ir p j Inr] by simp
  qed
qed

lemma inv_results_frame:
  assumes "inv_results e requests s"
    and "results s' = results s" and "promises s' = promises s"
    and "length (tasks s) \<le> length (tasks s')"
  shows "inv_results e requests s'"
  using assms unfolding inv_results_def by simp

lemma many_inv_advance:
  assumes "many_inv e requests s" and "keeps_unsettled e"
  shows "many_inv e requests (fetchMany_advance e requests c s)"
proof -
  from assms have it: "inv_tasks requests s" and ip: "inv_pending s"
    and ir: "inv_results e requests s"
    by (simp_all add: many_inv_def)
  let ?s' = "fetchMany_advance e requests c s"
  show ?thesis
  proof (cases "many_phase s")
    case Looping
    then have li: "loop_i s = length (tasks s)" using it by (simp add: inv_tasks_def split: many_phase.splits)
    show ?thesis
    proof (cases "loop_i s < length requests")
      case False
      then have eq: "?s' = s\<lparr>many_phase := AwaitingAll\<rparr>"
        using Looping by (simp add: fetchMany_advance_def)
      have "length (tasks s) = length requests"
        using False li it by (simp add: inv_tasks_def split: many_phase.splits)
      then have 1: "inv_tasks requests (s\<lparr>many_phase := AwaitingAll\<rparr>)"
        using it by (simp add: inv_tasks_def split: many_phase.splits)
      have 2: "inv_pending (s\<lparr>many_phase := AwaitingAll\<rparr>)"
        using ip Looping by (simp add: inv_pending_def split: many_phase.splits)
      have 3: "inv_results e requests (s\<lparr>many_phase := AwaitingAll\<rparr>)"
        using ir by (rule inv_results_frame) simp_all
      show ?thesis unfolding eq many_inv_def using 1 2 3 by simp
    next
      case True
      let ?d = "s\<lparr>tasks := tasks s @ [(requests ! loop_i s, loop_i s)],
                   executing := executing s @ [length (tasks s)]\<rparr>"
      have tk: "\<And>j. j < Suc (length (tasks s)) \<Longrightarrow>
                  (tasks s @ [(requests ! loop_i s, loop_i s)]) ! j = (requests ! j, j)"
        using it li by (auto simp: inv_tasks_def nth_append less_Suc_eq)
      have fresh: "\<And>j. length (tasks s) \<le> j \<Longrightarrow> promises s j = Pending"
        using ip by (simp add: inv_pending_def split: many_phase.splits)
      have pend: "\<And>j. promises s j = Pending \<Longrightarrow> j < length (tasks s) \<Longrightarrow> j \<in> set (executing s)"
        using ip Looping by (simp add: inv_pending_def split: many_phase.splits)
      show ?thesis
      proof (cases "shouldThrottle e (executing ?d) c")
        case thr: True
        then have eq: "?s' = ?d\<lparr>many_phase := Throttled\<rparr>"
          using Looping True by (simp add: fetchMany_advance_def Let_def)
        have 1: "inv_tasks requests (?d\<lparr>many_phase := Throttled\<rparr>)"
          using tk True li by (simp add: inv_tasks_def split: many_phase.splits)
        have 2: "inv_pending (?d\<lparr>many_phase := Throttled\<rparr>)"
          using fresh pend by (auto simp: inv_pending_def less_Suc_eq split: many_phase.splits)
        have r3: "inv_results e requests (?d\<lparr>many_phase := Throttled\<rparr>)"
          using ir by (rule inv_results_frame) simp_all
        show ?thesis unfolding eq many_inv_def using 1 2 r3 by simp
      next
        case nthr: False
        then have eq: "?s' = ?d\<lparr>loop_i := loop_i s + 1\<rparr>"
          using Looping True by (simp add: fetchMany_advance_def Let_def)
        have 1: "inv_tasks requests (?d\<lparr>loop_i := loop_i s + 1\<rparr>)"
          using tk True li Looping by (simp add: inv_tasks_def split: many_phase.splits)
        have 2: "inv_pending (?d\<lparr>loop_i := loop_i s + 1\<rparr>)"
          using fresh pend Looping by (auto simp: inv_pending_def less_Suc_eq split: many_phase.splits)
        have r3: "inv_results e requests (?d\<lparr>loop_i := loop_i s + 1\<rparr>)"
          using ir by (rule inv_results_frame) simp_all
        show ?thesis unfolding eq many_inv_def using 1 2 r3 by simp
      qed
    qed
  next
    case Throttled
    show ?thesis
    proof (cases "find (\<lambda>j. is_settled (promises s j)) (executing s)")
      case None
      with Throttled assms show ?thesis by (simp add: fetchMany_advance_def)
    next
      case (Some k)
      show ?thesis
      proof (cases "is_rejected (promises s k)")
        case True
        then have eq: "?s' = s\<lparr>many_phase := Rejected (rejection (promises s k))\<rparr>"
          using Throttled Some by (simp add: fetchMany_advance_def)
        have 1: "inv_tasks requests (s\<lparr>many_phase := Rejected (rejection (promises s k))\<rparr>)"
          using it by (simp add: inv_tasks_def split: many_phase.splits)
        have 2: "inv_pending (s\<lparr>many_phase := Rejected (rejection (promises s k))\<rparr>)"
          using ip by (simp add: inv_pending_def split: many_phase.splits)
        have 3: "inv_results e requests (s\<lparr>many_phase := Rejected (rejection (promises s k))\<rparr>)"
          using ir by (rule inv_results_frame) simp_all
        show ?thesis unfolding eq many_inv_def using 1 2 3 by simp
      next
        case False
        let ?r = "s\<lparr>executing := handleConcurrency e (executing s) (promises s),
                      loop_i := loop_i s + 1, many_phase := Looping\<rparr>"
        have eq: "?s' = ?r"
          using Throttled Some False by (simp add: fetchMany_advance_def)
        have keep: "\<And>j. j \<in> set (executing s) \<Longrightarrow> promises s j = Pending \<Longrightarrow>
                   j \<in> set (handleConcurrency e (executing s) (promises s))"
          using assms(2) by (auto simp: keeps_unsettled_def)
        have 1: "inv_tasks requests ?r"
          using it Throttled by (simp add: inv_tasks_def split: many_phase.splits)
        have 2: "inv_pending ?r"
          using ip Throttled keep by (auto simp: inv_pending_def split: many_phase.splits)
        have 3: "inv_results e requests ?r"
          using ir by (rule inv_results_frame) simp_all
        show ?thesis unfolding eq many_inv_def using 1 2 3 by simp
      qed
    qed
  next
    case AwaitingAll
    show ?thesis
    proof (cases "find (\<lambda>j. is_rejected (promises s j)) (executing s)")
      case (Some k)
      then have eq: "?s' = s\<lparr>many_phase := Rejected (rejection (promises s k))\<rparr>"
        using AwaitingAll by (simp add: fetchMany_advance_def)
      have 1: "inv_tasks requests (s\<lparr>many_phase := Rejected (rejection (promises s k))\<rparr>)"
        using it by (simp add: inv_tasks_def split: many_phase.splits)
      have 2: "inv_pending (s\<lparr>many_phase := Rejected (rejection (promises s k))\<rparr>)"
        using ip by (simp add: inv_pending_def split: many_phase.splits)
      have 3: "inv_results e requests (s\<lparr>many_phase := Rejected (rejection (promises s k))\<rparr>)"
        using ir by (rule inv_results_frame) simp_all
      show ?thesis unfolding eq many_inv_def using 1 2 3 by simp
    next
      case None
      show ?thesis
      proof (cases "list_all (\<lambda>j. promises s j = Fulfilled) (executing s)")
        case False
        with None AwaitingAll assms(1) show ?thesis by (simp add: fetchMany_advance_def)
      next
        case True
        then have all: "\<And>j. j \<in> set (executing s) \<Longrightarrow> promises s j = Fulfilled"
          by (simp add: list_all_iff)
        have eq: "?s' = s\<lparr>many_phase := Resolved (results s)\<rparr>"
          using AwaitingAll None True by (simp add: fetchMany_advance_def)
        have np: "\<And>j. j < length (tasks s) \<Longrightarrow> promises s j \<noteq> Pending"
        proof
          fix j assume "j < length (tasks s)" "promises s j = Pending"
          with AwaitingAll ip have "j \<in> set (executing s)"
            by (simp add: inv_pending_def split: many_phase.splits)
          with all \<open>promises s j = Pending\<close> show False by auto
        qed
        have 1: "inv_tasks requests (s\<lparr>many_phase := Resolved (results s)\<rparr>)"
          using it AwaitingAll by (simp add: inv_tasks_def split: many_phase.splits)
        have 2: "inv_pending (s\<lparr>many_phase := Resolved (results s)\<rparr>)"
          using ip np by (simp add: inv_pending_def split: many_phase.splits)
        have 3: "inv_results e requests (s\<lparr>many_phase := Resolved (results s)\<rparr>)"
          using ir by (rule inv_results_frame) simp_all
        show ?thesis unfolding eq many_inv_def using 1 2 3 by simp
      qed
    qed
  next
    case (Resolved rs)
    with assms show ?thesis by (simp add: fetchMany_advance_def)
  next
    case (Rejected t)
    with assms show ?thesis by (simp add: fetchMany_advance_def)
  qed
qed

lemma many_inv_run:
  assumes "keeps_unsettled e" and "many_inv e requests s"
  shows "many_inv e requests (foldl (many_step e requests c) s sched)"
  using assms(2)
proof (induction sched arbitrary: s)
  case Nil
  then show ?case by simp
next
  case (Cons a sched)
  have "many_inv e requests (many_step e requests c s a)"
    using Cons.prems assms(1)
    by (cases a) (simp_all add: many_step_def many_inv_advance many_inv_settle)
  then show ?case using Cons.IH by simp
qed

lemma many_inv_fetchMany:
  assumes "keeps_unsettled e"
  shows "many_inv e requests (fetchMany e requests concurrency sched)"
  unfolding fetchMany_def using many_inv_run [OF assms many_inv_init] .

text \<open>
  Progress: when no fetch rejects, a round in which every pending call settles brings
  \<^verbatim>\<open>fetchMany\<close> closer to resolving, so \<open>drain\<close> resolves it from every state of a run.
\<close>

lemma many_step_Settle: "many_step e requests c s (Settle j) = executeRequest_settles e s j"
  by (simp add: many_step_def)

lemma many_step_Advance: "many_step e requests c s Advance = fetchMany_advance e requests c s"
  by (simp add: many_step_def)

lemma settles_frame [simp]:
  "tasks (executeRequest_settles e s j) = tasks s"
  "executing (executeRequest_settles e s j) = executing s"
  "many_phase (executeRequest_settles e s j) = many_phase s"
  "loop_i (executeRequest_settles e s j) = loop_i s"
  by (simp_all add: executeRequest_settles_def split: prod.splits sum.splits)

lemma settles_keeps_settled:
  "promises s k \<noteq> Pending \<Longrightarrow> promises (executeRequest_settles e s j) k \<noteq> Pending"
  by (auto simp: executeRequest_settles_def split: prod.splits sum.splits)

lemma settles_settles:
  "j < length (tasks s) \<Longrightarrow> promises (executeRequest_settles e s j) j \<noteq> Pending"
  by (auto simp: executeRequest_settles_def split: prod.splits sum.splits)

lemma settle_all_frame:
  "tasks (foldl (many_step e requests c) s (map Settle js)) = tasks s
   \<and> executing (foldl (many_step e requests c) s (map Settle js)) = executing s
   \<and> many_phase (foldl (many_step e requests c) s (map Settle js)) = many_phase s
   \<and> loop_i (foldl (many_step e requests c) s (map Settle js)) = loop_i s"
  by (induction js arbitrary: s) (simp_all add: many_step_Settle)

lemma settle_all_keeps:
  "promises s k \<noteq> Pending \<Longrightarrow>
   promises (foldl (many_step e requests c) s (map Settle js)) k \<noteq> Pending"
  by (induction js arbitrary: s) (simp_all add: many_step_Settle settles_keeps_settled)

lemma settle_all_settles:
  "k \<in> set js \<Longrightarrow> k < length (tasks s) \<Longrightarrow>
   promises (foldl (many_step e requests c) s (map Settle js)) k \<noteq> Pending"
proof (induction js arbitrary: s)
  case Nil
  then show ?case by simp
next
  case (Cons j js)
  show ?case
  proof (cases "k = j")
    case True
    have "promises (executeRequest_settles e s j) k \<noteq> Pending"
      using True Cons.prems(2) settles_settles by simp
    from settle_all_keeps [OF this] show ?thesis by (simp add: many_step_Settle)
  next
    case False
    with Cons.prems have "k \<in> set js" by simp
    from Cons.IH [OF this, of "executeRequest_settles e s j"] Cons.prems(2)
    show ?thesis by (simp add: many_step_Settle)
  qed
qed


lemma inv_tasks_bound: "inv_tasks requests s \<Longrightarrow> length (tasks s) \<le> length requests"
  by (simp add: inv_tasks_def)

lemma inv_tasks_nth:
  "inv_tasks requests s \<Longrightarrow> j < length (tasks s) \<Longrightarrow> tasks s ! j = (requests ! j, j)"
  by (simp add: inv_tasks_def)

lemma settles_not_rejected:
  assumes "inv_tasks requests s" and "no_fetch_rejects e requests"
    and "\<not> is_rejected (promises s k)"
  shows "\<not> is_rejected (promises (executeRequest_settles e s j) k)"
proof (cases "j < length (tasks s) \<and> promises s j = Pending")
  case False
  then show ?thesis using assms(3) by (auto simp: executeRequest_settles_def)
next
  case True
  then have j: "j < length requests" using inv_tasks_bound [OF assms(1)] by simp
  then obtain r where r: "respond e (requests ! j) j = Inr r"
    using assms(2) by (auto simp: no_fetch_rejects_def)
  have t: "tasks s ! j = (requests ! j, j)" using inv_tasks_nth [OF assms(1)] True by simp
  show ?thesis
    using True r t assms(3) by (simp add: executeRequest_settles_def is_rejected_def)
qed

lemma inv_exec_settle:
  assumes "inv_tasks requests s" and "no_fetch_rejects e requests" and "inv_exec s"
  shows "inv_exec (executeRequest_settles e s j)"
  using assms(3) settles_not_rejected [OF assms(1,2)]
  by (simp add: inv_exec_def)

lemma find_no_rejected:
  "\<forall>j. \<not> is_rejected (ps j) \<Longrightarrow> find (\<lambda>j. is_rejected (ps j)) xs = None"
  by (simp add: find_None_iff)

lemma inv_exec_advance:
  assumes "inv_exec s" and "returns_members e"
  shows "inv_exec (fetchMany_advance e requests c s)"
proof (cases "many_phase s")
  case Looping
  then show ?thesis
    using assms(1)
    by (auto simp: fetchMany_advance_def inv_exec_def Let_def less_Suc_eq)
next
  case Throttled
  show ?thesis
  proof (cases "find (\<lambda>j. is_settled (promises s j)) (executing s)")
    case None
    then show ?thesis using Throttled assms(1) by (simp add: fetchMany_advance_def)
  next
    case (Some j)
    have nr: "\<not> is_rejected (promises s j)" using assms(1) by (simp add: inv_exec_def)
    have sub: "set (handleConcurrency e (executing s) (promises s)) \<subseteq> set (executing s)"
      using assms(2) by (simp add: returns_members_def)
    show ?thesis
      using Throttled Some nr sub assms(1)
      by (auto simp: fetchMany_advance_def inv_exec_def)
  qed
next
  case AwaitingAll
  have "find (\<lambda>j. is_rejected (promises s j)) (executing s) = None"
    using assms(1) by (intro find_no_rejected) (simp add: inv_exec_def)
  then show ?thesis
    using AwaitingAll assms(1) by (simp add: fetchMany_advance_def inv_exec_def)
next
  case (Resolved rs)
  then show ?thesis using assms(1) by (simp add: fetchMany_advance_def)
next
  case (Rejected t)
  then show ?thesis using assms(1) by (simp add: fetchMany_advance_def)
qed

lemma inv_exec_init: "inv_exec many_init"
  by (simp add: inv_exec_def many_init_def is_rejected_def)

lemma live_inv_run:
  assumes "keeps_unsettled e" and "returns_members e" and "no_fetch_rejects e requests"
    and "many_inv e requests s" and "inv_exec s"
  shows "many_inv e requests (foldl (many_step e requests c) s sched)
         \<and> inv_exec (foldl (many_step e requests c) s sched)"
  using assms(4,5)
proof (induction sched arbitrary: s)
  case Nil
  then show ?case by simp
next
  case (Cons a sched)
  have 1: "many_inv e requests (many_step e requests c s a)"
    using many_inv_run [OF assms(1) Cons.prems(1), of c "[a]"] by simp
  have it: "inv_tasks requests s" using Cons.prems(1) by (simp add: many_inv_def)
  have 2: "inv_exec (many_step e requests c s a)"
  proof (cases a)
    case Advance
    then show ?thesis
      using inv_exec_advance [OF Cons.prems(2) assms(2)] by (simp add: many_step_Advance)
  next
    case (Settle j)
    then show ?thesis
      using inv_exec_settle [OF it assms(3) Cons.prems(2)] by (simp add: many_step_Settle)
  qed
  from Cons.IH [OF 1 2] show ?case by simp
qed


lemma settled_cases:
  "p \<noteq> Pending \<Longrightarrow> \<not> is_rejected p \<Longrightarrow> p = Fulfilled"
  by (cases p) (simp_all add: is_rejected_def)

lemma advance_progress:
  assumes it: "inv_tasks requests s" and ie: "inv_exec s"
    and settled: "\<forall>j. j < length (tasks s) \<longrightarrow> promises s j \<noteq> Pending"
  shows "many_rank (length requests) (fetchMany_advance e requests c s)
           < many_rank (length requests) s
         \<or> (\<exists>rs. many_phase s = Resolved rs)"
proof (cases "many_phase s")
  case Looping
  then show ?thesis
    by (auto simp: fetchMany_advance_def many_rank_def Let_def)
next
  case Throttled
  from ie Throttled obtain k where k: "k \<in> set (executing s)"
    by (cases "executing s") (auto simp: inv_exec_def)
  then have "k < length (tasks s)" using ie by (simp add: inv_exec_def)
  then have "is_settled (promises s k)"
    using settled by (cases "promises s k") (auto simp: is_settled_def)
  with k obtain j where j: "find (\<lambda>j. is_settled (promises s j)) (executing s) = Some j"
    by (cases "find (\<lambda>j. is_settled (promises s j)) (executing s)") (auto simp: find_None_iff)
  have nr: "\<not> is_rejected (promises s j)" using ie by (simp add: inv_exec_def)
  have lt: "loop_i s < length requests"
    using it Throttled by (simp add: inv_tasks_def)
  show ?thesis
    using Throttled j nr lt by (simp add: fetchMany_advance_def many_rank_def)
next
  case AwaitingAll
  have f: "find (\<lambda>j. is_rejected (promises s j)) (executing s) = None"
    using ie by (intro find_no_rejected) (simp add: inv_exec_def)
  have "\<And>j. j \<in> set (executing s) \<Longrightarrow> promises s j = Fulfilled"
  proof -
    fix j assume "j \<in> set (executing s)"
    then have "j < length (tasks s)" using ie by (simp add: inv_exec_def)
    then have "promises s j \<noteq> Pending" using settled by simp
    moreover have "\<not> is_rejected (promises s j)" using ie by (simp add: inv_exec_def)
    ultimately show "promises s j = Fulfilled" by (rule settled_cases)
  qed
  then have "list_all (\<lambda>j. promises s j = Fulfilled) (executing s)"
    by (simp add: list_all_iff)
  then show ?thesis
    using AwaitingAll f by (simp add: fetchMany_advance_def many_rank_def)
next
  case (Resolved rs)
  then show ?thesis by simp
next
  case (Rejected t)
  then show ?thesis using ie by (simp add: inv_exec_def)
qed

lemma many_rank_frame:
  "many_phase s' = many_phase s \<Longrightarrow> loop_i s' = loop_i s \<Longrightarrow> many_rank n s' = many_rank n s"
  by (simp add: many_rank_def split: many_phase.splits)

lemma round_progress:
  assumes ku: "keeps_unsettled e" and rm: "returns_members e" and nr: "no_fetch_rejects e requests"
    and mi: "many_inv e requests s" and ie: "inv_exec s"
  shows "many_rank (length requests) (foldl (many_step e requests c) s (settle_round (length requests)))
           < many_rank (length requests) s
         \<or> (\<exists>rs. many_phase s = Resolved rs)"
proof -
  let ?n = "length requests"
  let ?s1 = "foldl (many_step e requests c) s (map Settle [0..<?n])"
  from live_inv_run [OF ku rm nr mi ie, of c "map Settle [0..<?n]"]
  have mi1: "many_inv e requests ?s1" and ie1: "inv_exec ?s1" by simp_all
  then have it1: "inv_tasks requests ?s1" by (simp add: many_inv_def)
  have fr: "tasks ?s1 = tasks s" "many_phase ?s1 = many_phase s" "loop_i ?s1 = loop_i s"
    using settle_all_frame [of e requests c s "[0..<?n]"] by simp_all
  have it: "inv_tasks requests s" using mi by (simp add: many_inv_def)
  have settled: "\<forall>j. j < length (tasks ?s1) \<longrightarrow> promises ?s1 j \<noteq> Pending"
  proof (intro allI impI)
    fix j assume "j < length (tasks ?s1)"
    then have j: "j < length (tasks s)" using fr by simp
    then have "j \<in> set [0..<?n]" using inv_tasks_bound [OF it] by simp
    from settle_all_settles [OF this j] show "promises ?s1 j \<noteq> Pending" .
  qed
  have rk: "many_rank ?n ?s1 = many_rank ?n s"
    using fr by (intro many_rank_frame) simp_all
  from advance_progress [OF it1 ie1 settled, of e c] show ?thesis
    unfolding settle_round_def foldl_append
    by (simp add: many_step_Advance rk fr)
qed

lemma resolved_stays:
  "many_phase s = Resolved rs \<Longrightarrow> many_phase (foldl (many_step e requests c) s sched) = Resolved rs"
proof (induction sched arbitrary: s)
  case Nil
  then show ?case by simp
next
  case (Cons a sched)
  have "many_phase (many_step e requests c s a) = Resolved rs"
    using Cons.prems by (cases a) (simp_all add: many_step_Advance many_step_Settle fetchMany_advance_def)
  from Cons.IH [OF this] show ?case by simp
qed

lemma rounds_progress:
  assumes ku: "keeps_unsettled e" and rm: "returns_members e" and nr: "no_fetch_rejects e requests"
    and mi: "many_inv e requests s" and ie: "inv_exec s"
  shows "(\<exists>rs. many_phase (foldl (many_step e requests c) s
                   (concat (replicate k (settle_round (length requests))))) = Resolved rs)
         \<or> many_rank (length requests)
              (foldl (many_step e requests c) s
                 (concat (replicate k (settle_round (length requests))))) + k
             \<le> many_rank (length requests) s"
  using mi ie
proof (induction k arbitrary: s)
  case 0
  then show ?case by simp
next
  case (Suc k)
  let ?n = "length requests"
  let ?s1 = "foldl (many_step e requests c) s (settle_round ?n)"
  let ?rest = "concat (replicate k (settle_round ?n))"
  from live_inv_run [OF ku rm nr Suc.prems, of c "settle_round ?n"]
  have mi1: "many_inv e requests ?s1" and ie1: "inv_exec ?s1" by simp_all
  have unf: "foldl (many_step e requests c) s (concat (replicate (Suc k) (settle_round ?n)))
               = foldl (many_step e requests c) ?s1 ?rest"
    by simp
  from round_progress [OF ku rm nr Suc.prems, of c]
  show ?case
  proof
    assume lt: "many_rank ?n ?s1 < many_rank ?n s"
    from Suc.IH [OF mi1 ie1] show ?thesis
      unfolding unf using lt by auto
  next
    assume "\<exists>rs. many_phase s = Resolved rs"
    then obtain rs where "many_phase s = Resolved rs" ..
    from resolved_stays [OF this] show ?thesis by blast
  qed
qed

lemma many_rank_bound:
  "many_rank n s \<le> 2 * n + 3"
  by (cases "many_phase s") (simp_all add: many_rank_def)

lemma many_rank_0:
  "many_rank n s = 0 \<Longrightarrow> (\<exists>rs. many_phase s = Resolved rs) \<or> (\<exists>t. many_phase s = Rejected t)"
  by (simp add: many_rank_def split: many_phase.splits)

lemma drain_resolves:
  assumes ku: "keeps_unsettled e" and rm: "returns_members e" and nr: "no_fetch_rejects e requests"
    and mi: "many_inv e requests s" and ie: "inv_exec s"
  shows "\<exists>rs. many_phase (foldl (many_step e requests c) s (drain (length requests))) = Resolved rs"
proof -
  let ?n = "length requests"
  let ?f = "foldl (many_step e requests c) s (drain ?n)"
  from live_inv_run [OF ku rm nr mi ie, of c "drain ?n"]
  have ief: "inv_exec ?f" by simp
  from rounds_progress [OF ku rm nr mi ie, of c "2 * ?n + 3"]
  show ?thesis
  proof
    assume "\<exists>rs. many_phase (foldl (many_step e requests c) s
                   (concat (replicate (2 * ?n + 3) (settle_round ?n)))) = Resolved rs"
    then show ?thesis by (simp add: drain_def)
  next
    assume "many_rank ?n (foldl (many_step e requests c) s
                 (concat (replicate (2 * ?n + 3) (settle_round ?n)))) + (2 * ?n + 3)
             \<le> many_rank ?n s"
    then have "many_rank ?n ?f + (2 * ?n + 3) \<le> many_rank ?n s" by (simp add: drain_def)
    with many_rank_bound [of ?n s] have "many_rank ?n ?f = 0" by linarith
    from many_rank_0 [OF this] ief show ?thesis by (auto simp: inv_exec_def)
  qed
qed

lemma resolved_aligned:
  assumes inv: "many_inv e requests s" and res: "many_phase s = Resolved rs"
  shows "rs = results s \<and> length (tasks s) = length requests
       \<and> (\<forall>j. j < length requests \<longrightarrow> tasks s ! j = (requests ! j, j) \<and> promises s j \<noteq> Pending)
       \<and> length rs \<le> length requests
       \<and> (\<forall>i r. i < length rs \<and> rs ! i = Some r \<longrightarrow> respond e (requests ! i) i = Inr r)"
proof -
  from inv have it: "inv_tasks requests s" and ip: "inv_pending s" and ir: "inv_results e requests s"
    by (simp_all add: many_inv_def)
  have rs: "rs = results s" using ip res by (simp add: inv_pending_def)
  have len: "length (tasks s) = length requests" using it res by (simp add: inv_tasks_def)
  have tk: "\<And>j. j < length requests \<Longrightarrow> tasks s ! j = (requests ! j, j)"
    using it len by (simp add: inv_tasks_def)
  have np: "\<And>j. j < length requests \<Longrightarrow> promises s j \<noteq> Pending"
    using ip res len by (simp add: inv_pending_def)
  have le: "length rs \<le> length requests"
    using inv_results_len [OF ir] rs len by simp
  have d: "\<And>i r. i < length rs \<Longrightarrow> rs ! i = Some r \<Longrightarrow> respond e (requests ! i) i = Inr r"
    using inv_results_D [OF ir] rs by blast
  show ?thesis
    using rs len tk np le d by blast
qed

lemma resolved_full:
  assumes inv: "many_inv e requests s" and res: "many_phase s = Resolved rs"
    and ok: "no_fetch_rejects e requests"
  shows "rs = map (\<lambda>i. Some (projr (respond e (requests ! i) i))) [0..<length requests]"
proof -
  from inv have ir: "inv_results e requests s" by (simp add: many_inv_def)
  from resolved_aligned [OF inv res] have rs: "rs = results s"
    and np: "\<And>j. j < length requests \<Longrightarrow> promises s j \<noteq> Pending"
    and le: "length rs \<le> length requests"
    and d: "\<And>i r. i < length rs \<Longrightarrow> rs ! i = Some r \<Longrightarrow> respond e (requests ! i) i = Inr r"
    by blast+
  have ful: "\<And>j. j < length requests \<Longrightarrow> promises s j = Fulfilled"
  proof -
    fix j assume j: "j < length requests"
    show "promises s j = Fulfilled"
    proof (cases "promises s j")
      case Pending
      with np [OF j] show ?thesis by simp
    next
      case Fulfilled
      then show ?thesis .
    next
      case (RejectedWith t)
      from inv_results_F [OF ir this] ok j show ?thesis by (auto simp: no_fetch_rejects_def)
    qed
  qed
  have l: "length rs = length requests"
  proof (cases "length requests")
    case 0
    with le show ?thesis by simp
  next
    case (Suc m)
    then have "promises s m = Fulfilled" using ful by simp
    from inv_results_E [OF ir this] rs le Suc show ?thesis by simp
  qed
  show ?thesis
  proof (rule nth_equalityI)
    show "length rs = length (map (\<lambda>i. Some (projr (respond e (requests ! i) i))) [0..<length requests])"
      using l by simp
  next
    fix i assume i: "i < length rs"
    then have i': "i < length requests" using l by simp
    from inv_results_E [OF ir ful [OF i']] rs obtain r where r: "rs ! i = Some r" by auto
    from d [OF i r] have "respond e (requests ! i) i = Inr r" .
    with r i' show "rs ! i = map (\<lambda>i. Some (projr (respond e (requests ! i) i))) [0..<length requests] ! i"
      by simp
  qed
qed

text \<open>
  C9, as amended. Whatever the order in which \<^verbatim>\<open>fetchMany\<close> advances and the fetches settle:
  when \<^verbatim>\<open>fetchMany\<close> resolves, it returns the array \<^verbatim>\<open>results\<close>; \<^verbatim>\<open>executeRequest\<close> was called
  once for every request, the \<open>j\<close>-th call with \<^verbatim>\<open>requests[j]\<close> and index \<open>j\<close>, and every one of
  these calls has settled; every response in the returned sequence stands at the index of the
  request whose fetch produced it; and when no fetch rejects, the sequence is exactly the
  responses of the fetches of \<^verbatim>\<open>requests[0]\<close>, \<^verbatim>\<open>requests[1]\<close>, ... in this order. When no fetch
  rejects, \<^verbatim>\<open>fetchMany\<close> never rejects, and from every point of every run it does resolve, with
  that sequence, once the pending fetches settle and it is resumed (\<open>drain\<close>), and it stays
  resolved whatever follows.
\<close>

theorem fetchMany_index_aligned:
  assumes "keeps_unsettled e"
  shows "(\<forall>rs. many_phase (fetchMany e requests concurrency sched) = Resolved rs \<longrightarrow>
            rs = results (fetchMany e requests concurrency sched)
            \<and> length (tasks (fetchMany e requests concurrency sched)) = length requests
            \<and> (\<forall>j. j < length requests \<longrightarrow>
                  tasks (fetchMany e requests concurrency sched) ! j = (requests ! j, j)
                  \<and> promises (fetchMany e requests concurrency sched) j \<noteq> Pending)
            \<and> length rs \<le> length requests
            \<and> (\<forall>i r. i < length rs \<and> rs ! i = Some r \<longrightarrow> respond e (requests ! i) i = Inr r)
            \<and> (no_fetch_rejects e requests \<longrightarrow>
                 rs = map (\<lambda>i. Some (projr (respond e (requests ! i) i))) [0..<length requests]))
       \<and> (no_fetch_rejects e requests \<and> returns_members e \<longrightarrow>
            (\<forall>t. many_phase (fetchMany e requests concurrency sched) \<noteq> Rejected t)
            \<and> (\<forall>more.
                  many_phase
                    (fetchMany e requests concurrency (sched @ drain (length requests) @ more)) =
                  Resolved (map (\<lambda>i. Some (projr (respond e (requests ! i) i)))
                              [0..<length requests])))"
proof (intro conjI allI impI)
  let ?s = "fetchMany e requests concurrency sched"
  have inv: "many_inv e requests ?s" by (rule many_inv_fetchMany [OF assms])
  fix rs assume res: "many_phase ?s = Resolved rs"
  from resolved_aligned [OF inv res]
  show "rs = results ?s" and "length (tasks ?s) = length requests"
    and "length rs \<le> length requests"
    by blast+
  {
    fix j assume "j < length requests"
    with resolved_aligned [OF inv res]
    show "tasks ?s ! j = (requests ! j, j)" and "promises ?s j \<noteq> Pending" by blast+
  }
  {
    fix i r assume "i < length rs \<and> rs ! i = Some r"
    with resolved_aligned [OF inv res]
    show "respond e (requests ! i) i = Inr r" by blast
  }
  {
    assume "no_fetch_rejects e requests"
    from resolved_full [OF inv res this]
    show "rs = map (\<lambda>i. Some (projr (respond e (requests ! i) i))) [0..<length requests]" .
  }
next
  let ?s = "fetchMany e requests concurrency sched"
  assume a: "no_fetch_rejects e requests \<and> returns_members e"
  then have nr: "no_fetch_rejects e requests" and rm: "returns_members e" by simp_all
  from live_inv_run [OF assms rm nr many_inv_init inv_exec_init, of concurrency sched]
  have mi: "many_inv e requests ?s" and ie: "inv_exec ?s"
    by (simp_all add: fetchMany_def)
  {
    fix t
    show "many_phase ?s \<noteq> Rejected t" using ie by (simp add: inv_exec_def)
  }
  let ?f = "fetchMany e requests concurrency (sched @ drain (length requests))"
  have f: "?f = foldl (many_step e requests concurrency) ?s (drain (length requests))"
    by (simp add: fetchMany_def)
  from drain_resolves [OF assms rm nr mi ie, of concurrency] obtain rs where
    res: "many_phase ?f = Resolved rs"
    unfolding f by blast
  have "many_inv e requests ?f" by (rule many_inv_fetchMany [OF assms])
  from resolved_full [OF this res nr] res
  have r: "many_phase ?f =
          Resolved (map (\<lambda>i. Some (projr (respond e (requests ! i) i))) [0..<length requests])"
    by simp
  fix more
  have "fetchMany e requests concurrency (sched @ drain (length requests) @ more)
          = foldl (many_step e requests concurrency) ?f more"
    by (simp add: fetchMany_def)
  with resolved_stays [OF r, of e requests concurrency more]
  show "many_phase (fetchMany e requests concurrency (sched @ drain (length requests) @ more)) =
          Resolved (map (\<lambda>i. Some (projr (respond e (requests ! i) i))) [0..<length requests])"
    by simp
qed

lemmas many_defs = fetchMany_def many_step_def fetchMany_advance_def executeRequest_settles_def
  many_init_def js_assign_def is_settled_def is_rejected_def rejection_def
  ex_base_def ex_requests_def ex_schedule_def ex_base_rejecting_def ex_schedule_reject_def

theorem fetchMany_index_aligned_witness:
  "keeps_unsettled ex_base \<and> returns_members ex_base \<and> no_fetch_rejects ex_base ex_requests
   \<and> many_phase (fetchMany ex_base ex_requests (Some 2) ex_schedule) =
       Resolved
         [Some \<lparr>body = ''https://a.example'', headers = [], status = 200, statusText = ''OK'',
                attempts = 1, failedAttempts = []\<rparr>,
          Some \<lparr>body = ''https://b.example'', headers = [], status = 200, statusText = ''OK'',
                attempts = 1, failedAttempts = []\<rparr>,
          Some \<lparr>body = ''https://c.example'', headers = [], status = 200, statusText = ''OK'',
                attempts = 1, failedAttempts = []\<rparr>]
   \<and> promises (fetchMany ex_base ex_requests (Some 2) ex_schedule) 0 \<noteq> Pending
   \<and> promises (fetchMany ex_base ex_requests (Some 2) ex_schedule) 1 \<noteq> Pending
   \<and> promises (fetchMany ex_base ex_requests (Some 2) ex_schedule) 2 \<noteq> Pending
   \<and> many_phase (fetchMany ex_base ex_requests (Some 2) [Advance, Advance]) = Throttled
   \<and> many_phase (fetchMany ex_base ex_requests (Some 2) ([Advance, Advance] @ drain 3)) =
       Resolved
         [Some \<lparr>body = ''https://a.example'', headers = [], status = 200, statusText = ''OK'',
                attempts = 1, failedAttempts = []\<rparr>,
          Some \<lparr>body = ''https://b.example'', headers = [], status = 200, statusText = ''OK'',
                attempts = 1, failedAttempts = []\<rparr>,
          Some \<lparr>body = ''https://c.example'', headers = [], status = 200, statusText = ''OK'',
                attempts = 1, failedAttempts = []\<rparr>]"
proof -
  let ?rs = "[Some \<lparr>body = ''https://a.example'', headers = [], status = 200, statusText = ''OK'',
                attempts = 1, failedAttempts = []\<rparr>,
          Some \<lparr>body = ''https://b.example'', headers = [], status = 200, statusText = ''OK'',
                attempts = 1, failedAttempts = []\<rparr>,
          Some \<lparr>body = ''https://c.example'', headers = [], status = 200, statusText = ''OK'',
                attempts = 1, failedAttempts = []\<rparr>]"
  have h1: "keeps_unsettled ex_base"
    by (simp add: keeps_unsettled_def ex_base_def)
  have h2: "many_phase (fetchMany ex_base ex_requests (Some 2) ex_schedule) = Resolved ?rs"
    by (simp add: many_defs)
  have h3: "returns_members ex_base"
    by (simp add: returns_members_def ex_base_def)
  have h4: "no_fetch_rejects ex_base ex_requests"
    by (simp add: no_fetch_rejects_def ex_base_def)
  have h5: "many_phase (fetchMany ex_base ex_requests (Some 2) [Advance, Advance]) = Throttled"
    by (simp add: many_defs)
  have n: "length ex_requests = 3" by (simp add: ex_requests_def)
  have u: "[0..<3] = [0, 1, 2]" by (simp add: numeral_3_eq_3)
  have m: "map (\<lambda>i. Some (projr (respond ex_base (ex_requests ! i) i))) [0..<3] = ?rs"
    unfolding u by (simp add: ex_base_def ex_requests_def)
  from fetchMany_index_aligned [OF h1, of ex_requests "Some 2" ex_schedule] h2 n
  have a: "promises (fetchMany ex_base ex_requests (Some 2) ex_schedule) 0 \<noteq> Pending
         \<and> promises (fetchMany ex_base ex_requests (Some 2) ex_schedule) 1 \<noteq> Pending
         \<and> promises (fetchMany ex_base ex_requests (Some 2) ex_schedule) 2 \<noteq> Pending"
    by simp
  from fetchMany_index_aligned [OF h1, of ex_requests "Some 2" "[Advance, Advance]"] h3 h4
  have "\<forall>more. many_phase
            (fetchMany ex_base ex_requests (Some 2) ([Advance, Advance] @ drain 3 @ more)) = Resolved ?rs"
    unfolding n m by blast
  from this [THEN spec, of "[]"]
  have b: "many_phase (fetchMany ex_base ex_requests (Some 2) ([Advance, Advance] @ drain 3)) = Resolved ?rs"
    by simp
  from h1 h2 h3 h4 h5 a b show ?thesis by blast
qed

theorem fetchMany_index_aligned_counterexample:
  "keeps_unsettled ex_base_rejecting \<and> returns_members ex_base_rejecting
   \<and> length ex_requests = 3
   \<and> many_phase (fetchMany ex_base_rejecting ex_requests None ex_schedule_reject)
       = Rejected (JsError ''Failed to launch the browser process'' None)
   \<and> length (tasks (fetchMany ex_base_rejecting ex_requests None ex_schedule_reject)) = 3
   \<and> promises (fetchMany ex_base_rejecting ex_requests None ex_schedule_reject) 1 = Pending
   \<and> promises (fetchMany ex_base_rejecting ex_requests None ex_schedule_reject) 2 = Pending"
  by (simp add: many_defs keeps_unsettled_def returns_members_def)

end
